theory Spec2Isabelle
  imports Complex_Main "HOL-Library.Multiset"
begin

section \<open>Data model of the crossing reduction (\<open>ordering.py\<close>)\<close>

text \<open>
  Nodes and clusters (\<open>GNode | Cluster\<close>) are values of a type \<open>'v\<close> of identities. A
  socket is the dataclass \<open>Socket(owner, idx, is_output)\<close>; \<open>replace(d, owner=c)\<close> is
  \<open>set_owner c d\<close>. Python floats are modelled by exact rationals.
\<close>

datatype error = KeyError | ValueError | TypeError | StopIteration | IndexError | NodeNotFound
  | NetworkXError | RecursionError | UnboundLocalError | RuntimeError

datatype 'v Socket = Socket (owner: 'v) (idx: int) (is_output: bool)

definition set_owner :: "'v \<Rightarrow> 'v Socket \<Rightarrow> 'v Socket" where
  "set_owner c d = Socket c (idx d) (is_output d)"

text \<open>An edge of the contracted graph \<open>G_h\<close> with its three attributes.\<close>

record 'v contracted_edge =
  source :: 'v
  target :: 'v
  weight :: int
  from_socket :: "'v Socket"
  to_socket :: "'v Socket"

text \<open>
  \<open>ClusterCrossingsData\<close>. The dicts \<open>fixed_sockets\<close> and \<open>free_sockets\<close> are association
  lists in insertion order; \<open>graph\<close> is \<open>G_h\<close>, its nodes and its edges in insertion order.
\<close>

record 'v ClusterCrossingsData =
  free_col :: "'v list"
  fixed_sockets :: "('v \<times> 'v Socket list) list"
  free_sockets :: "('v \<times> 'v Socket list) list"
  constrained_clusters :: "'v list"
  graph_nodes :: "'v list"
  graph_edges :: "'v contracted_edge list"
  N :: "'v Socket list"
  S :: "'v Socket list"
  bipartite_edges :: "('v Socket \<times> 'v Socket \<times> int) list"

text \<open>
  The mutable fields the crossing reduction reads and writes: \<open>v.cr.socket_ranks\<close>,
  \<open>v.cr.barycenter\<close> (\<open>None\<close> until assigned), the column \<open>v.col\<close> of every node, and the
  state of the module \<open>random\<close>, which is the stream of the values that the coming calls of
  \<open>uniform(0, 1)\<close> return.
\<close>

record 'v crossing_state =
  socket_ranks :: "'v \<Rightarrow> 'v Socket \<rightharpoonup> rat"
  barycenter :: "'v \<rightharpoonup> rat"
  col :: "'v \<Rightarrow> 'v list"
  random :: "nat \<Rightarrow> rat"

text \<open>\<open>xs.index(x)\<close>: the first position of \<open>x\<close>, \<open>ValueError\<close> when there is none.\<close>

fun index_from :: "nat \<Rightarrow> 'a list \<Rightarrow> 'a \<Rightarrow> nat option" where
  "index_from i [] x = None"
| "index_from i (y # ys) x = (if y = x then Some i else index_from (Suc i) ys x)"

definition list_index :: "'a list \<Rightarrow> 'a \<Rightarrow> error + nat" where
  "list_index xs x = (case index_from 0 xs x of None \<Rightarrow> Inl ValueError | Some i \<Rightarrow> Inr i)"

text \<open>\<open>uniform(0, 1)\<close>: the next value of the stream, and the stream advanced.\<close>

definition uniform01 :: "'v crossing_state \<Rightarrow> rat \<times> 'v crossing_state" where
  "uniform01 st = (random st 0, st\<lparr>random := (\<lambda>n. random st (Suc n))\<rparr>)"

subsection \<open>\<open>calc_socket_ranks\<close>\<close>

text \<open>The inner loop \<open>for socket in sockets: rank += incr; v.cr.socket_ranks[socket] = rank\<close>.\<close>

fun rank_sockets :: "rat \<Rightarrow> rat \<Rightarrow> 's list \<Rightarrow> ('s \<rightharpoonup> rat) \<Rightarrow> ('s \<rightharpoonup> rat)" where
  "rank_sockets incr rank [] m = m"
| "rank_sockets incr rank (socket # sockets) m =
     rank_sockets incr (rank + incr) sockets (m(socket \<mapsto> rank + incr))"

fun calc_socket_ranks_loop ::
  "bool \<Rightarrow> ('v \<times> 'v Socket list) list \<Rightarrow> 'v crossing_state \<Rightarrow> error + 'v crossing_state" where
  "calc_socket_ranks_loop forwards [] st = Inr st"
| "calc_socket_ranks_loop forwards ((v, sockets) # items) st =
     (case list_index (col st v) v of
        Inl e \<Rightarrow> Inl e
      | Inr i \<Rightarrow>
          (let incr = 1 / (of_nat (length sockets) + 1);
               rank = of_nat i + 1;
               incr = (if forwards then - incr else incr)
           in calc_socket_ranks_loop forwards items
                (st\<lparr>socket_ranks := (socket_ranks st)
                      (v := rank_sockets incr rank sockets (socket_ranks st v))\<rparr>)))"

definition calc_socket_ranks ::
  "'v ClusterCrossingsData \<Rightarrow> bool \<Rightarrow> 'v crossing_state \<Rightarrow> error + 'v crossing_state" where
  "calc_socket_ranks H forwards st = calc_socket_ranks_loop forwards (fixed_sockets H) st"

text \<open>The rank of socket \<open>s\<close> of node \<open>v\<close> after \<open>calc_socket_ranks\<close>.\<close>

definition socket_rank_after ::
  "'v ClusterCrossingsData \<Rightarrow> bool \<Rightarrow> 'v crossing_state \<Rightarrow> 'v \<Rightarrow> 'v Socket
     \<Rightarrow> error + rat option" where
  "socket_rank_after H forwards st v s =
     (case calc_socket_ranks H forwards st of Inl e \<Rightarrow> Inl e | Inr st' \<Rightarrow> Inr (socket_ranks st' v s))"

subsection \<open>\<open>calc_barycenters\<close>\<close>

definition RANDOM_AMOUNT :: rat where "RANDOM_AMOUNT = 7 / 100"

text \<open>\<open>[s.owner.cr.socket_ranks[s] for s in sockets]\<close>: a missing rank is a \<open>KeyError\<close>.\<close>

fun socket_rank_list :: "'v crossing_state \<Rightarrow> 'v Socket list \<Rightarrow> error + rat list" where
  "socket_rank_list st [] = Inr []"
| "socket_rank_list st (s # ss) =
     (case socket_ranks st (owner s) s of
        None \<Rightarrow> Inl KeyError
      | Some r \<Rightarrow> (case socket_rank_list st ss of Inl e \<Rightarrow> Inl e | Inr rs \<Rightarrow> Inr (r # rs)))"

fun calc_barycenters_loop ::
  "('v \<times> 'v Socket list) list \<Rightarrow> 'v list \<Rightarrow> 'v crossing_state \<Rightarrow> error + 'v crossing_state" where
  "calc_barycenters_loop fs [] st = Inr st"
| "calc_barycenters_loop fs (w # ws) st =
     (case map_of fs w of
        None \<Rightarrow> Inl KeyError
      | Some sockets \<Rightarrow>
          if sockets = [] then calc_barycenters_loop fs ws st
          else (case socket_rank_list st sockets of
                  Inl e \<Rightarrow> Inl e
                | Inr ranks \<Rightarrow>
                    (case uniform01 st of (u, st') \<Rightarrow>
                       (let weight = sum_list ranks;
                            weight = weight + (u * RANDOM_AMOUNT - RANDOM_AMOUNT / 2)
                        in calc_barycenters_loop fs ws
                             (st'\<lparr>barycenter := (barycenter st')
                                    (w \<mapsto> weight / of_nat (length sockets))\<rparr>)))))"

definition calc_barycenters ::
  "'v ClusterCrossingsData \<Rightarrow> 'v crossing_state \<Rightarrow> error + 'v crossing_state" where
  "calc_barycenters H st = calc_barycenters_loop (free_sockets H) (free_col H) st"

text \<open>The barycenter of \<open>w\<close> after \<open>calc_barycenters\<close>.\<close>

definition barycenter_after ::
  "'v ClusterCrossingsData \<Rightarrow> 'v crossing_state \<Rightarrow> 'v \<Rightarrow> error + rat option" where
  "barycenter_after H st w =
     (case calc_barycenters H st of Inl e \<Rightarrow> Inl e | Inr st' \<Rightarrow> Inr (barycenter st' w))"

text \<open>
  The number of calls of \<open>uniform\<close> that \<open>calc_barycenters\<close> makes before it reaches
  \<open>w\<close>: one for every earlier element of the free column that has a socket.
\<close>

fun draws_before :: "('v \<times> 'v Socket list) list \<Rightarrow> 'v list \<Rightarrow> 'v \<Rightarrow> nat" where
  "draws_before fs [] w = 0"
| "draws_before fs (x # xs) w =
     (if x = w then 0
      else (if map_of fs x = Some [] then 0 else 1) + draws_before fs xs w)"

text \<open>A free element with two sockets, of ranks 1 and 2; the next draw of \<open>uniform\<close> is 0.\<close>

definition H8 :: "nat ClusterCrossingsData" where
  "H8 = \<lparr>free_col = [1], fixed_sockets = [],
     free_sockets = [(1, [Socket 0 0 True, Socket 0 1 True])],
     constrained_clusters = [], graph_nodes = [], graph_edges = [], N = [], S = [],
     bipartite_edges = []\<rparr>"

definition st8 :: "nat crossing_state" where
  "st8 = \<lparr>socket_ranks = (\<lambda>v. [Socket 0 0 True \<mapsto> 1, Socket 0 1 True \<mapsto> 2]),
     barycenter = Map.empty, col = (\<lambda>v. [0]), random = (\<lambda>n. 0)\<rparr>"

subsection \<open>Constraint graphs and \<open>find_violated_constraint\<close>\<close>

text \<open>
  A \<open>networkx.DiGraph\<close>: its nodes and its edges, both in insertion order, as the
  adjacency dicts keep them. \<open>GC[v]\<close> is \<open>succs\<close>, \<open>GC.pred[v]\<close> is \<open>preds\<close>; adding an
  edge adds its end points, removing a node removes its edges.
\<close>

record 'a digraph =
  nodes :: "'a list"
  edges :: "('a \<times> 'a) list"

definition empty_digraph :: "'a digraph" where
  "empty_digraph = \<lparr>nodes = [], edges = []\<rparr>"

definition add_node :: "'a \<Rightarrow> 'a digraph \<Rightarrow> 'a digraph" where
  "add_node v g = (if v \<in> set (nodes g) then g else g\<lparr>nodes := nodes g @ [v]\<rparr>)"

definition add_edge :: "'a \<times> 'a \<Rightarrow> 'a digraph \<Rightarrow> 'a digraph" where
  "add_edge e g =
     (let g' = add_node (snd e) (add_node (fst e) g)
      in if e \<in> set (edges g') then g' else g'\<lparr>edges := edges g' @ [e]\<rparr>)"

definition add_edges_from :: "('a \<times> 'a) list \<Rightarrow> 'a digraph \<Rightarrow> 'a digraph" where
  "add_edges_from es g = fold add_edge es g"

definition remove_node :: "'a \<Rightarrow> 'a digraph \<Rightarrow> 'a digraph" where
  "remove_node v g = \<lparr>nodes = removeAll v (nodes g),
     edges = filter (\<lambda>e. fst e \<noteq> v \<and> snd e \<noteq> v) (edges g)\<rparr>"

definition remove_nodes_from :: "'a list \<Rightarrow> 'a digraph \<Rightarrow> 'a digraph" where
  "remove_nodes_from vs g = fold remove_node vs g"

definition remove_edge :: "'a \<times> 'a \<Rightarrow> 'a digraph \<Rightarrow> 'a digraph" where
  "remove_edge e g = g\<lparr>edges := removeAll e (edges g)\<rparr>"

definition succs :: "'a digraph \<Rightarrow> 'a \<Rightarrow> 'a list" where
  "succs g v = map snd (filter (\<lambda>e. fst e = v) (edges g))"

definition preds :: "'a digraph \<Rightarrow> 'a \<Rightarrow> 'a list" where
  "preds g v = map fst (filter (\<lambda>e. snd e = v) (edges g))"

definition in_degree :: "'a digraph \<Rightarrow> 'a \<Rightarrow> nat" where
  "in_degree g v = length (preds g v)"

text \<open>\<open>itertools.pairwise\<close>.\<close>

fun pairwise_list :: "'a list \<Rightarrow> ('a \<times> 'a) list" where
  "pairwise_list (x # y # zs) = (x, y) # pairwise_list (y # zs)"
| "pairwise_list _ = []"

text \<open>
  \<open>find_violated_constraint\<close>. \<open>first_violated\<close> is the loop
  \<open>for c in incoming_constraints[v]: if c[0].cr.barycenter >= v.cr.barycenter: return c\<close>;
  comparing with a barycenter that is \<open>None\<close> is a \<open>TypeError\<close>. \<open>note_constraint\<close> is the
  body of \<open>for t in GC[v]\<close>, on the pair of \<open>incoming_constraints\<close> and \<open>active\<close>.
\<close>

fun first_violated :: "('a \<Rightarrow> rat option) \<Rightarrow> 'a \<Rightarrow> ('a \<times> 'a) list \<Rightarrow> error + ('a \<times> 'a) option" where
  "first_violated b v [] = Inr None"
| "first_violated b v (c # cs) =
     (case b (fst c) of
        None \<Rightarrow> Inl TypeError
      | Some x \<Rightarrow>
          (case b v of
             None \<Rightarrow> Inl TypeError
           | Some y \<Rightarrow> if x \<ge> y then Inr (Some c) else first_violated b v cs))"

definition note_constraint ::
  "'a digraph \<Rightarrow> 'a \<Rightarrow> 'a \<Rightarrow> ('a \<Rightarrow> ('a \<times> 'a) list) \<times> 'a list
     \<Rightarrow> ('a \<Rightarrow> ('a \<times> 'a) list) \<times> 'a list" where
  "note_constraint g v t ia =
     (let inc = (fst ia)(t := (v, t) # fst ia t)
      in (inc, if length (inc t) = in_degree g t then snd ia @ [t] else snd ia))"

text \<open>
  The \<open>while active\<close> loop ends: a node is appended to \<open>active\<close> only when the number
  of its recorded constraints reaches its in-degree, which happens at most once, so the
  length of \<open>active\<close> plus the number of nodes still below their in-degree decreases
  with every pass.
\<close>

definition pending :: "'a digraph \<Rightarrow> ('a \<Rightarrow> ('a \<times> 'a) list) \<Rightarrow> 'a set" where
  "pending g inc = {t \<in> snd ` set (edges g). length (inc t) < in_degree g t}"

lemma finite_pending: "finite (pending g inc)"
  by (simp add: pending_def)

lemma note_constraint_measure:
  assumes "t \<in> snd ` set (edges g)"
  shows "length (snd (note_constraint g v t ia)) + card (pending g (fst (note_constraint g v t ia)))
         \<le> length (snd ia) + card (pending g (fst ia))"
proof -
  let ?inc = "(fst ia)(t := (v, t) # fst ia t)"
  have sub: "pending g ?inc \<subseteq> pending g (fst ia)"
    by (auto simp: pending_def)
  show ?thesis
  proof (cases "length (?inc t) = in_degree g t")
    case True
    have "t \<in> pending g (fst ia)" using True assms by (auto simp: pending_def)
    moreover have "t \<notin> pending g ?inc" using True by (auto simp: pending_def)
    ultimately have "pending g ?inc \<subset> pending g (fst ia)" using sub by blast
    then have "card (pending g ?inc) < card (pending g (fst ia))"
      by (rule psubset_card_mono[OF finite_pending])
    then show ?thesis using True by (simp add: note_constraint_def Let_def)
  next
    case False
    have "card (pending g ?inc) \<le> card (pending g (fst ia))"
      by (rule card_mono[OF finite_pending sub])
    then show ?thesis using False by (simp add: note_constraint_def Let_def)
  qed
qed

lemma fold_note_constraint_measure:
  "set ts \<subseteq> snd ` set (edges g) \<Longrightarrow>
   length (snd (fold (note_constraint g v) ts ia)) + card (pending g (fst (fold (note_constraint g v) ts ia)))
     \<le> length (snd ia) + card (pending g (fst ia))"
proof (induction ts arbitrary: ia)
  case Nil then show ?case by simp
next
  case (Cons t ts)
  have "length (snd (fold (note_constraint g v) ts (note_constraint g v t ia)))
        + card (pending g (fst (fold (note_constraint g v) ts (note_constraint g v t ia))))
      \<le> length (snd (note_constraint g v t ia)) + card (pending g (fst (note_constraint g v t ia)))"
    using Cons.prems by (intro Cons.IH) auto
  also have "\<dots> \<le> length (snd ia) + card (pending g (fst ia))"
    using Cons.prems by (intro note_constraint_measure) auto
  finally show ?case by simp
qed

lemma succs_targets: "set (succs g v) \<subseteq> snd ` set (edges g)"
  by (auto simp: succs_def)

function sweep ::
  "('a \<Rightarrow> rat option) \<Rightarrow> 'a digraph \<Rightarrow> 'a list \<Rightarrow> ('a \<Rightarrow> ('a \<times> 'a) list)
     \<Rightarrow> error + ('a \<times> 'a) option" where
  "sweep b g [] inc = Inr None"
| "sweep b g (v # active) inc =
     (case first_violated b v (inc v) of
        Inl e \<Rightarrow> Inl e
      | Inr (Some c) \<Rightarrow> Inr (Some c)
      | Inr None \<Rightarrow>
          (let ia = fold (note_constraint g v) (succs g v) (inc, active)
           in sweep b g (snd ia) (fst ia)))"
  by pat_completeness auto
termination
proof (relation "measure (\<lambda>(b, g, active, inc). length active + card (pending g inc))")
  show "wf (measure (\<lambda>(b, g, active, inc). length active + card (pending g inc)))" by simp
next
  fix b :: "'a \<Rightarrow> rat option" and g :: "'a digraph" and v active inc x2 ia
  assume "ia = fold (note_constraint g v) (succs g v) (inc, active)"
  then show "((b, g, snd ia, fst ia), (b, g, v # active, inc))
       \<in> measure (\<lambda>(b, g, active, inc). length active + card (pending g inc))"
    using fold_note_constraint_measure[OF succs_targets, of g v v "(inc, active)"] by simp
qed

definition find_violated_constraint ::
  "('a \<Rightarrow> rat option) \<Rightarrow> 'a digraph \<Rightarrow> error + ('a \<times> 'a) option" where
  "find_violated_constraint b g =
     sweep b g (filter (\<lambda>v. succs g v \<noteq> [] \<and> preds g v = []) (nodes g)) (\<lambda>v. [])"

subsection \<open>\<open>handle_constraints\<close>\<close>

text \<open>
  \<open>handle_constraints\<close>. The nodes of the constraint graph are elements of the free
  column or the synthetic nodes \<open>v_c = GNode(type=GNodeType.DUMMY)\<close>; \<open>Merged n\<close> is the
  one made by pass \<open>n\<close> of the loop. The barycenter of a synthetic node is kept in
  \<open>merged_barycenter\<close>. The sets \<open>unconstrained\<close> and \<open>GC.nodes\<close> are lists without
  repetition; Python iterates a set in hash order, and as \<open>sorted\<close> is stable that order
  decides only between groups of equal barycenter.
\<close>

datatype 'v cnode = Elem 'v | Merged nat

record 'v constraint_state =
  GC :: "'v cnode digraph"
  unconstrained :: "'v cnode list"
  L :: "'v cnode \<rightharpoonup> 'v list"
  deg :: "'v cnode \<rightharpoonup> int"
  merged_barycenter :: "nat \<rightharpoonup> rat"

fun cnode_barycenter :: "'v crossing_state \<Rightarrow> 'v constraint_state \<Rightarrow> 'v cnode \<Rightarrow> rat option" where
  "cnode_barycenter st cs (Elem v) = barycenter st v"
| "cnode_barycenter st cs (Merged k) = merged_barycenter cs k"

text \<open>
  The rewiring of a merge: \<open>GC.add_edge(u, v_c)\<close> for the predecessors of \<open>s\<close> and of
  \<open>t\<close>, \<open>GC.remove_nodes_from(c)\<close>, and the removal of the edge \<open>(v_c, v_c)\<close>.
\<close>

definition rewire :: "'a \<Rightarrow> 'a \<times> 'a \<Rightarrow> 'a digraph \<Rightarrow> 'a digraph" where
  "rewire v_c c g =
     (let g1 = fold (\<lambda>u. add_edge (u, v_c)) (preds g (fst c) @ preds g (snd c)) g;
          g2 = remove_nodes_from [fst c, snd c] g1
      in if (v_c, v_c) \<in> set (edges g2) then remove_edge (v_c, v_c) g2 else g2)"

definition merge_constraint ::
  "'v crossing_state \<Rightarrow> nat \<Rightarrow> 'v cnode \<times> 'v cnode \<Rightarrow> 'v constraint_state
     \<Rightarrow> error + 'v constraint_state" where
  "merge_constraint st n c cs =
     (let v_c = Merged n; s = fst c; t = snd c in
      case deg cs s of None \<Rightarrow> Inl KeyError | Some deg_s \<Rightarrow>
      case deg cs t of None \<Rightarrow> Inl KeyError | Some deg_t \<Rightarrow>
      case cnode_barycenter st cs s of None \<Rightarrow> Inl TypeError | Some b_s \<Rightarrow>
      case cnode_barycenter st cs t of None \<Rightarrow> Inl TypeError | Some b_t \<Rightarrow>
      case L cs s of None \<Rightarrow> Inl KeyError | Some L_s \<Rightarrow>
      case L cs t of None \<Rightarrow> Inl KeyError | Some L_t \<Rightarrow>
        (let deg_c = deg_s + deg_t;
             b_c = (if deg_c > 0 then (b_s * of_int deg_s + b_t * of_int deg_t) / of_int deg_c
                    else (b_s + b_t) / 2);
             g = rewire v_c c (GC cs)
         in Inr (cs\<lparr>GC := g,
               unconstrained := (if v_c \<notin> set (nodes g) then unconstrained cs @ [v_c]
                                 else unconstrained cs),
               L := (L cs)(v_c \<mapsto> L_s @ L_t),
               deg := (deg cs)(v_c \<mapsto> deg_c),
               merged_barycenter := (merged_barycenter cs)(n \<mapsto> b_c)\<rparr>)))"

text \<open>
  \<open>while c := find_violated_constraint(GC)\<close>. The loop carries the number of passes made;
  a run that never leaves the loop is \<open>None\<close>.
\<close>

partial_function (option) constraint_loop ::
  "'v crossing_state \<Rightarrow> nat \<Rightarrow> 'v constraint_state
     \<Rightarrow> (nat \<times> (error + 'v constraint_state)) option" where
  "constraint_loop st n cs =
     (case find_violated_constraint (cnode_barycenter st cs) (GC cs) of
        Inl e \<Rightarrow> Some (n, Inl e)
      | Inr None \<Rightarrow> Some (n, Inr cs)
      | Inr (Some c) \<Rightarrow>
          (case merge_constraint st n c cs of
             Inl e \<Rightarrow> Some (Suc n, Inl e)
           | Inr cs' \<Rightarrow> constraint_loop st (Suc n) cs'))"

declare constraint_loop.simps [code]

text \<open>\<open>H.graph.degree[v]\<close>, and the dict \<open>deg\<close>.\<close>

definition graph_degree :: "'v ClusterCrossingsData \<Rightarrow> 'v \<Rightarrow> error + int" where
  "graph_degree H v =
     (if v \<in> set (graph_nodes H)
      then Inr (int (length (filter (\<lambda>e. source e = v) (graph_edges H)))
                + int (length (filter (\<lambda>e. target e = v) (graph_edges H))))
      else Inl KeyError)"

fun degrees :: "'v ClusterCrossingsData \<Rightarrow> 'v cnode list \<Rightarrow> error + ('v cnode \<rightharpoonup> int)" where
  "degrees H [] = Inr Map.empty"
| "degrees H (Merged k # vs) = Inl KeyError"
| "degrees H (Elem v # vs) =
     (case graph_degree H v of
        Inl e \<Rightarrow> Inl e
      | Inr d \<Rightarrow> (case degrees H vs of Inl e \<Rightarrow> Inl e | Inr m \<Rightarrow> Inr (m(Elem v \<mapsto> d))))"

text \<open>
  \<open>sorted(xs, key=...)\<close> where the key may be \<open>None\<close>: with two or more elements a
  \<open>None\<close> key is compared and raises \<open>TypeError\<close>.
\<close>

definition py_sorted :: "('a \<Rightarrow> rat option) \<Rightarrow> 'a list \<Rightarrow> error + 'a list" where
  "py_sorted key xs =
     (if length xs \<ge> 2 \<and> (\<exists>x \<in> set xs. key x = None) then Inl TypeError
      else Inr (sort_key (\<lambda>x. the (key x)) xs))"

text \<open>\<open>chain(*[L[v] for v in groups])\<close>, and the final loop \<open>v.cr.barycenter = i\<close>.\<close>

fun expand_groups :: "('a \<rightharpoonup> 'v list) \<Rightarrow> 'a list \<Rightarrow> error + 'v list" where
  "expand_groups l [] = Inr []"
| "expand_groups l (g # gs) =
     (case l g of
        None \<Rightarrow> Inl KeyError
      | Some members \<Rightarrow>
          (case expand_groups l gs of Inl e \<Rightarrow> Inl e | Inr rest \<Rightarrow> Inr (members @ rest)))"

fun assign_dense_ranks :: "nat \<Rightarrow> 'v list \<Rightarrow> ('v \<rightharpoonup> rat) \<Rightarrow> ('v \<rightharpoonup> rat)" where
  "assign_dense_ranks i [] b = b"
| "assign_dense_ranks i (v # vs) b = assign_dense_ranks (Suc i) vs (b(v \<mapsto> rat_of_nat i))"

definition initial_constraint_state ::
  "'v ClusterCrossingsData \<Rightarrow> ('v cnode \<rightharpoonup> int) \<Rightarrow> 'v constraint_state" where
  "initial_constraint_state H d =
     (let g = add_edges_from (pairwise_list (map Elem (constrained_clusters H))) empty_digraph
      in \<lparr>GC = g,
          unconstrained = filter (\<lambda>v. v \<notin> set (nodes g)) (remdups (map Elem (free_col H))),
          L = map_of (map (\<lambda>v. (Elem v, [v])) (free_col H)),
          deg = d, merged_barycenter = Map.empty\<rparr>)"

definition handle_constraints ::
  "'v ClusterCrossingsData \<Rightarrow> 'v crossing_state \<Rightarrow> (error + 'v crossing_state) option" where
  "handle_constraints H st =
     (let g = add_edges_from (pairwise_list (map Elem (constrained_clusters H))) empty_digraph in
      case degrees H (nodes g) of
        Inl e \<Rightarrow> Some (Inl e)
      | Inr d \<Rightarrow>
          (case constraint_loop st 0 (initial_constraint_state H d) of
             None \<Rightarrow> None
           | Some (n, Inl e) \<Rightarrow> Some (Inl e)
           | Some (n, Inr cs) \<Rightarrow>
               (case py_sorted (cnode_barycenter st cs)
                       (unconstrained cs @ filter (\<lambda>v. v \<notin> set (unconstrained cs)) (nodes (GC cs))) of
                  Inl e \<Rightarrow> Some (Inl e)
                | Inr groups \<Rightarrow>
                    (case expand_groups (L cs) groups of
                       Inl e \<Rightarrow> Some (Inl e)
                     | Inr members \<Rightarrow>
                         Some (Inr (st\<lparr>barycenter := assign_dense_ranks 0 members (barycenter st)\<rparr>))))))"

text \<open>
  Three sibling clusters \<open>A = 0\<close>, \<open>B = 1\<close>, \<open>C = 2\<close>, each with one edge from a fixed
  node, constrained to the order \<open>A < B < C\<close>, with barycenters 3, 2 and 1.
\<close>

definition edgeABC :: "nat \<Rightarrow> nat \<Rightarrow> nat contracted_edge" where
  "edgeABC u v = \<lparr>source = u, target = v, weight = 1,
     from_socket = Socket u 0 True, to_socket = Socket v 0 False\<rparr>"

definition H_ABC :: "nat ClusterCrossingsData" where
  "H_ABC = \<lparr>free_col = [0, 1, 2],
     fixed_sockets = [(10, [Socket 10 0 True]), (11, [Socket 11 0 True]), (12, [Socket 12 0 True])],
     free_sockets = [(0, [Socket 10 0 True]), (1, [Socket 11 0 True]), (2, [Socket 12 0 True])],
     constrained_clusters = [0, 1, 2],
     graph_nodes = [0, 1, 2, 10, 11, 12],
     graph_edges = [edgeABC 10 0, edgeABC 11 1, edgeABC 12 2],
     N = [], S = [], bipartite_edges = []\<rparr>"

definition st_ABC :: "nat crossing_state" where
  "st_ABC = \<lparr>socket_ranks = (\<lambda>v. Map.empty), barycenter = [0 \<mapsto> 3, 1 \<mapsto> 2, 2 \<mapsto> 1],
     col = (\<lambda>v. []), random = (\<lambda>n. 0)\<rparr>"

text \<open>
  The loop of \<open>handle_constraints\<close> alone, run as the function runs it, with the dict
  \<open>deg\<close> that it computes: the number of passes made and the number of nodes of \<open>GC\<close> when
  the loop is left.
\<close>

definition constraint_passes ::
  "'v ClusterCrossingsData \<Rightarrow> 'v crossing_state \<Rightarrow> (error + nat \<times> nat) option" where
  "constraint_passes H st =
     (let g = add_edges_from (pairwise_list (map Elem (constrained_clusters H))) empty_digraph in
      case degrees H (nodes g) of
        Inl e \<Rightarrow> Some (Inl e)
      | Inr d \<Rightarrow>
          (case constraint_loop st 0 (initial_constraint_state H d) of
             None \<Rightarrow> None
           | Some (n, Inl e) \<Rightarrow> Some (Inl e)
           | Some (n, Inr cs) \<Rightarrow> Some (Inr (n, length (nodes (GC cs))))))"

text \<open>The barycenters of \<open>vs\<close> after \<open>handle_constraints\<close>.\<close>

definition ranks_after_constraints ::
  "'v ClusterCrossingsData \<Rightarrow> 'v crossing_state \<Rightarrow> 'v list \<Rightarrow> (error + rat option list) option" where
  "ranks_after_constraints H st vs =
     (case handle_constraints H st of
        None \<Rightarrow> None
      | Some (Inl e) \<Rightarrow> Some (Inl e)
      | Some (Inr st') \<Rightarrow> Some (Inr (map (barycenter st') vs)))"

text \<open>
  The invariant of a \<open>DiGraph\<close> without self-loops: no node twice, every edge between
  two different nodes of the graph.
\<close>

definition wf_digraph :: "'a digraph \<Rightarrow> bool" where
  "wf_digraph g \<longleftrightarrow> distinct (nodes g)
     \<and> list_all (\<lambda>e. fst e \<in> set (nodes g) \<and> snd e \<in> set (nodes g) \<and> fst e \<noteq> snd e) (edges g)"

subsection \<open>\<open>crossing_reduction_data\<close>\<close>

text \<open>
  One pass of the inner loop of \<open>crossing_reduction_data\<close>, for a cluster \<open>h\<close>. The
  results of the \<open>networkx\<close> queries are its inputs: \<open>LT_h\<close> is \<open>list(LT[h])\<close>, \<open>in_edges\<close>
  is \<open>G.in_edges(TC[h], data=True)\<close> as tuples \<open>(s, t, d['from_socket'], d['to_socket'])\<close>
  (\<open>G\<close> is a multigraph, so an edge may occur more than once), \<open>TC_pred t\<close> is
  \<open>TC.pred[t]\<close>, and \<open>prev_clusters\<close> is \<open>set(trees[i]) - G.nodes\<close>.

  A dict or a graph keeps its keys in insertion order: \<open>insert_new\<close> adds a key that is
  not yet there at the end. A Python set is a list without repetition (\<open>dedup\<close>); its
  iteration order, which Python takes from the hashes, matters below only between sockets
  of equal \<open>idx\<close>.
\<close>

definition insert_new :: "'a \<Rightarrow> 'a list \<Rightarrow> 'a list" where
  "insert_new x xs = (if x \<in> set xs then xs else xs @ [x])"

definition dedup :: "'a list \<Rightarrow> 'a list" where
  "dedup xs = fold insert_new xs []"

text \<open>
  The contracted graph \<open>G_h\<close> is the pair of its nodes and its edges. \<open>contract_edge\<close> is
  the body of \<open>for s, t, d in G.in_edges(TC[h], data=True)\<close>: the child \<open>c\<close> of \<open>h\<close> above
  \<open>t\<close> is \<open>next(c for c in TC.pred[t] if c in LT[h])\<close>; an edge \<open>(s, c)\<close> that is there
  already has its weight raised by one, otherwise it is added with weight 1 and the two
  sockets re-owned. When there is no such child, \<open>next\<close> raises \<open>StopIteration\<close> inside the
  generator \<open>crossing_reduction_data\<close>, which leaves the generator as a \<open>RuntimeError\<close>.
\<close>

definition contract_edge ::
  "('v \<Rightarrow> 'v list) \<Rightarrow> 'v list \<Rightarrow> 'v \<times> 'v \<times> 'v Socket \<times> 'v Socket
     \<Rightarrow> 'v list \<times> 'v contracted_edge list \<Rightarrow> error + 'v list \<times> 'v contracted_edge list" where
  "contract_edge TC_pred LT_h e g =
     (case e of (s, t, d_from, d_to) \<Rightarrow>
        (case find (\<lambda>c. c \<in> set LT_h) (TC_pred t) of
           None \<Rightarrow> Inl RuntimeError
         | Some c \<Rightarrow>
             if \<exists>x \<in> set (snd g). source x = s \<and> target x = c
             then Inr (fst g, map (\<lambda>x. if source x = s \<and> target x = c
                                          then x\<lparr>weight := weight x + 1\<rparr> else x) (snd g))
             else
               (let k1 = (if owner d_from \<noteq> s then d_to else d_from);
                    k2 = (if owner d_from \<noteq> s then d_from else d_to)
                in Inr (fold insert_new [s, c] (fst g),
                        snd g @ [\<lparr>source = s, target = c, weight = 1,
                                   from_socket = set_owner s k1, to_socket = set_owner c k2\<rparr>]))))"

fun contract ::
  "('v \<Rightarrow> 'v list) \<Rightarrow> 'v list \<Rightarrow> ('v \<times> 'v \<times> 'v Socket \<times> 'v Socket) list
     \<Rightarrow> 'v list \<times> 'v contracted_edge list \<Rightarrow> error + 'v list \<times> 'v contracted_edge list" where
  "contract TC_pred LT_h [] g = Inr g"
| "contract TC_pred LT_h (e # es) g =
     (case contract_edge TC_pred LT_h e g of
        Inl err \<Rightarrow> Inl err
      | Inr g' \<Rightarrow> contract TC_pred LT_h es g')"

text \<open>\<open>d[k] = v\<close> on a dict, and \<open>sorted(sockets, key=lambda d: d.idx, reverse=...)\<close>.\<close>

definition dict_set :: "'k \<Rightarrow> 'a \<Rightarrow> ('k \<times> 'a) list \<Rightarrow> ('k \<times> 'a) list" where
  "dict_set k v kvs =
     (if k \<in> fst ` set kvs then map (\<lambda>kv. if fst kv = k then (k, v) else kv) kvs
      else kvs @ [(k, v)])"

definition sorted_by_idx :: "bool \<Rightarrow> 'v Socket list \<Rightarrow> 'v Socket list" where
  "sorted_by_idx reverse ws =
     (if reverse then rev (sort_key idx (rev ws)) else sort_key idx ws)"

text \<open>
  \<open>G_h.edges.data()\<close> lists the edges node by node. \<open>B\<close> is the bipartite \<open>DiGraph\<close> on the
  sockets, with the weight as edge datum: adding an edge that is there already replaces
  its datum. \<open>B_reversed_edges\<close> is \<open>nx.reverse_view(B).edges.data('weight')\<close>.
\<close>

definition edges_data :: "'v list \<times> 'v contracted_edge list \<Rightarrow> 'v contracted_edge list" where
  "edges_data g = concat (map (\<lambda>n. filter (\<lambda>x. source x = n) (snd g)) (fst g))"

definition B_add_edge ::
  "'s \<times> 's \<times> int \<Rightarrow> 's list \<times> ('s \<times> 's \<times> int) list \<Rightarrow> 's list \<times> ('s \<times> 's \<times> int) list" where
  "B_add_edge e b =
     (fold insert_new [fst e, fst (snd e)] (fst b),
      if \<exists>x \<in> set (snd b). fst x = fst e \<and> fst (snd x) = fst (snd e)
      then map (\<lambda>x. if fst x = fst e \<and> fst (snd x) = fst (snd e) then e else x) (snd b)
      else snd b @ [e])"

definition B_edges :: "'s list \<times> ('s \<times> 's \<times> int) list \<Rightarrow> ('s \<times> 's \<times> int) list" where
  "B_edges b = concat (map (\<lambda>n. filter (\<lambda>x. fst x = n) (snd b)) (fst b))"

definition B_reversed_edges :: "'s list \<times> ('s \<times> 's \<times> int) list \<Rightarrow> ('s \<times> 's \<times> int) list" where
  "B_reversed_edges b =
     concat (map (\<lambda>n. map (\<lambda>x. (fst (snd x), fst x, snd (snd x)))
                          (filter (\<lambda>x. fst (snd x) = n) (snd b))) (fst b))"

definition cluster_crossings_data ::
  "'v list \<Rightarrow> ('v \<times> 'v \<times> 'v Socket \<times> 'v Socket) list \<Rightarrow> ('v \<Rightarrow> 'v list) \<Rightarrow> 'v list \<Rightarrow> bool
     \<Rightarrow> error + 'v ClusterCrossingsData" where
  "cluster_crossings_data LT_h in_edges TC_pred prev_clusters backwards =
     (case contract TC_pred LT_h in_edges (dedup LT_h, []) of
        Inl err \<Rightarrow> Inl err
      | Inr G_h \<Rightarrow>
          (let preds_of = (\<lambda>v. map source (filter (\<lambda>x. target x = v) (snd G_h)));
               fixed = fold (\<lambda>u. dict_set u
                          (sorted_by_idx (\<not> backwards)
                             (dedup (map from_socket (filter (\<lambda>x. source x = u) (snd G_h))))))
                         (concat (map preds_of LT_h)) [];
               free = fold (\<lambda>v. dict_set v (map from_socket (filter (\<lambda>x. target x = v) (snd G_h))))
                         LT_h [];
               B = fold B_add_edge
                     (map (\<lambda>x. (from_socket x, to_socket x, weight x)) (edges_data G_h)) ([], []);
               N0 = dedup (map fst (B_edges B));
               S0 = dedup (map (\<lambda>x. fst (snd x)) (B_edges B));
               swap = (length S0 > length N0)
           in Inr \<lparr>free_col = LT_h, fixed_sockets = fixed, free_sockets = free,
                   constrained_clusters = filter (\<lambda>v. v \<in> set prev_clusters) LT_h,
                   graph_nodes = fst G_h, graph_edges = snd G_h,
                   N = (if B_edges B = [] then [] else sort_key idx (if swap then S0 else N0)),
                   S = (if B_edges B = [] then [] else sort_key idx (if swap then N0 else S0)),
                   bipartite_edges = (if swap then B_reversed_edges B else B_edges B)\<rparr>))"







text \<open>
  A fixed node 10 with two sockets, of index 0 and 1, joined to the free nodes 1 and 2:
  the edges as \<open>G.in_edges\<close> lists them for the forward data and, through the reversed view,
  for the backward data. \<open>H_forward\<close> and \<open>H_backward\<close> are what \<open>crossing_reduction_data\<close>
  builds from them; node 10 is alone in its column.
\<close>

definition two_socket_in_edges :: "bool \<Rightarrow> (nat \<times> nat \<times> nat Socket \<times> nat Socket) list" where
  "two_socket_in_edges backwards =
     (if backwards then [(10, 1, Socket 1 0 True, Socket 10 0 False),
                         (10, 2, Socket 2 0 True, Socket 10 1 False)]
      else [(10, 1, Socket 10 0 True, Socket 1 0 False),
            (10, 2, Socket 10 1 True, Socket 2 0 False)])"

definition two_socket_TC_pred :: "nat \<Rightarrow> nat list" where
  "two_socket_TC_pred t = [t, 100]"

definition H_forward :: "nat ClusterCrossingsData" where
  "H_forward = \<lparr>free_col = [1, 2],
     fixed_sockets = [(10, [Socket 10 1 True, Socket 10 0 True])],
     free_sockets = [(1, [Socket 10 0 True]), (2, [Socket 10 1 True])],
     constrained_clusters = [], graph_nodes = [1, 2, 10],
     graph_edges =
       [\<lparr>source = 10, target = 1, weight = 1,
           from_socket = Socket 10 0 True, to_socket = Socket 1 0 False\<rparr>,
        \<lparr>source = 10, target = 2, weight = 1,
           from_socket = Socket 10 1 True, to_socket = Socket 2 0 False\<rparr>],
     N = [Socket 10 0 True, Socket 10 1 True],
     S = [Socket 1 0 False, Socket 2 0 False],
     bipartite_edges =
       [(Socket 10 0 True, Socket 1 0 False, 1), (Socket 10 1 True, Socket 2 0 False, 1)]\<rparr>"

definition H_backward :: "nat ClusterCrossingsData" where
  "H_backward = \<lparr>free_col = [1, 2],
     fixed_sockets = [(10, [Socket 10 0 False, Socket 10 1 False])],
     free_sockets = [(1, [Socket 10 0 False]), (2, [Socket 10 1 False])],
     constrained_clusters = [], graph_nodes = [1, 2, 10],
     graph_edges =
       [\<lparr>source = 10, target = 1, weight = 1,
           from_socket = Socket 10 0 False, to_socket = Socket 1 0 True\<rparr>,
        \<lparr>source = 10, target = 2, weight = 1,
           from_socket = Socket 10 1 False, to_socket = Socket 2 0 True\<rparr>],
     N = [Socket 10 0 False, Socket 10 1 False],
     S = [Socket 1 0 True, Socket 2 0 True],
     bipartite_edges =
       [(Socket 10 0 False, Socket 1 0 True, 1), (Socket 10 1 False, Socket 2 0 True, 1)]\<rparr>"

definition st_two_sockets :: "nat crossing_state" where
  "st_two_sockets = \<lparr>socket_ranks = (\<lambda>v. Map.empty), barycenter = Map.empty,
     col = (\<lambda>v. [10]), random = (\<lambda>n. 0)\<rparr>"

subsection \<open>\<open>get_cross_count\<close>\<close>



text \<open>
  \<open>pos\<close> of \<open>get_cross_count\<close>: the barycenter of the owner when it is in the free column,
  else \<open>v.col.index(v)\<close>. Sorting two or more sockets of which one has no barycenter
  raises \<open>TypeError\<close>.
\<close>

definition pos :: "'v ClusterCrossingsData \<Rightarrow> 'v crossing_state \<Rightarrow> 'v Socket \<Rightarrow> error + rat option" where
  "pos H st w =
     (let v = owner w in
      if v \<in> set (free_col H) then Inr (barycenter st v)
      else (case list_index (col st v) v of Inl e \<Rightarrow> Inl e | Inr i \<Rightarrow> Inr (Some (rat_of_nat i))))"















text \<open>
  The brute-force reference, in the words of the specification. The position of a socket
  is the barycenter of its owner for a free element and the column index of its owner for
  a fixed node; sockets of equal position, those of one owner, stay in the order in which
  the side lists them, as each side is sorted by position and the sort is stable. Two
  bipartite edges cross when their north ends and their south ends are in opposite strict
  order, and the count is the sum over all pairs of edges that cross of the product of
  their weights. \<open>positions_defined\<close>: every socket of the two sides has a position.
\<close>

definition position :: "'v ClusterCrossingsData \<Rightarrow> 'v crossing_state \<Rightarrow> 'v Socket \<Rightarrow> rat" where
  "position H st w =
     (if owner w \<in> set (free_col H) then the (barycenter st (owner w))
      else rat_of_nat (the (index_from 0 (col st (owner w)) (owner w))))"






definition stx :: "nat crossing_state" where
  "stx = \<lparr>socket_ranks = (\<lambda>v. Map.empty), barycenter = [0 \<mapsto> 0, 1 \<mapsto> 1, 2 \<mapsto> 2],
     col = (\<lambda>v. [10, 11]), random = (\<lambda>n. 0)\<rparr>"


section \<open>Linear segments (\<open>placement/linear_segments.py\<close>)\<close>

text \<open>
  \<open>get_linear_segments\<close> walks the columns of the graph and chains nodes along their
  only out-edge. The graph queries it uses are those of networkx: \<open>G.out_degree\<close>,
  \<open>G.in_degree\<close> (parallel edges count), \<open>nx.dfs_preorder_nodes(G, u)\<close> (depth-first
  preorder from \<open>u\<close>, the successors of a node in the insertion order of its adjacency
  dict) and \<open>nx.has_path(T, a, b)\<close>, which raises \<open>NodeNotFound\<close> when an end point is not
  a node of \<open>T\<close>. The depth-first search keeps the stack of the nodes to visit and the visited
  nodes in reverse order; it terminates because every step either visits a new vertex or
  shortens the stack.
\<close>

definition out_degree :: "'a digraph \<Rightarrow> 'a \<Rightarrow> nat" where
  "out_degree g v = length (succs g v)"

definition vertices :: "'a digraph \<Rightarrow> 'a set" where
  "vertices g = set (nodes g) \<union> fst ` set (edges g) \<union> snd ` set (edges g)"

lemma finite_vertices: "finite (vertices g)"
  by (simp add: vertices_def)

lemma succs_vertices: "x \<notin> vertices g \<Longrightarrow> succs g x = []"
  by (auto simp: vertices_def succs_def filter_empty_conv image_iff)

function dfs :: "'a digraph \<Rightarrow> 'a list \<Rightarrow> 'a list \<Rightarrow> 'a list" where
  "dfs g [] visited = rev visited"
| "dfs g (x # stack) visited =
     (if x \<in> set visited then dfs g stack visited
      else dfs g (dedup (succs g x) @ stack) (x # visited))"
  by pat_completeness auto
termination
proof (relation "measures [\<lambda>(g, stack, visited). card (vertices g - set visited),
                           \<lambda>(g, stack, visited). length stack]")
  show "wf (measures [\<lambda>(g, stack, visited). card (vertices g - set visited),
                      \<lambda>(g, stack, visited). length stack])" by simp
next
  fix g :: "'a digraph" and x :: 'a and stack visited :: "'a list"
  assume "x \<in> set visited"
  then show "((g, stack, visited), (g, x # stack, visited))
     \<in> measures [\<lambda>(g, stack, visited). card (vertices g - set visited),
                  \<lambda>(g, stack, visited). length stack]" by simp
next
  fix g :: "'a digraph" and x :: 'a and stack visited :: "'a list"
  assume nv: "x \<notin> set visited"
  show "((g, dedup (succs g x) @ stack, x # visited), (g, x # stack, visited))
     \<in> measures [\<lambda>(g, stack, visited). card (vertices g - set visited),
                  \<lambda>(g, stack, visited). length stack]"
  proof (cases "x \<in> vertices g")
    case True
    have "vertices g - set (x # visited) \<subset> vertices g - set visited" using True nv by auto
    then have "card (vertices g - set (x # visited)) < card (vertices g - set visited)"
      by (intro psubset_card_mono) (auto simp: finite_vertices)
    then show ?thesis by simp
  next
    case False
    then have "succs g x = []" by (rule succs_vertices)
    moreover have "vertices g - set (x # visited) = vertices g - set visited" using False by auto
    ultimately show ?thesis by (simp add: dedup_def)
  qed
qed

definition dfs_preorder_nodes :: "'a digraph \<Rightarrow> 'a \<Rightarrow> 'a list" where
  "dfs_preorder_nodes g u = dfs g [u] []"

definition has_path :: "'a digraph \<Rightarrow> 'a \<Rightarrow> 'a \<Rightarrow> error + bool" where
  "has_path g a b =
     (if a \<notin> set (nodes g) \<or> b \<notin> set (nodes g) then Inl NodeNotFound
      else Inr (b \<in> set (dfs_preorder_nodes g a)))"


text \<open>
  What \<open>get_linear_segments\<close> reads of a \<open>ClusterGraph\<close>: the graph \<open>G\<close> with its
  columns (\<open>G.graph['columns']\<close>), the cluster tree \<open>T\<close>, the clusters \<open>S\<close>, and of every
  node its \<open>cluster\<close> and \<open>rank\<close>, of every cluster its \<open>nesting_level\<close>. A segment is the
  list of its nodes. The indexed look-up \<open>G.out_degree[u]\<close> raises \<open>KeyError\<close> for a \<open>u\<close>
  that is not a node of \<open>G\<close>, and so does \<open>T[c]\<close> (\<open>adjacency\<close>) for a \<open>c\<close> that is not a
  node of \<open>T\<close>. \<open>complex_clusters_loop\<close> is the loop \<open>for c in CG.S\<close>. \<open>stops\<close> is the body
  of the inner loop: whether the chain breaks at \<open>v\<close>. The state of the outer loop is the pair of \<open>linear_segments\<close> and \<open>seen\<close>.
  \<open>split\<close> is \<open>Segment.split\<close>: it returns the nodes kept by the segment and the nodes of
  the new segment.
\<close>

record 'v ClusterGraph =
  cg_G :: "'v digraph"
  cg_T :: "'v digraph"
  cg_S :: "'v list"
  columns :: "'v list list"
  cluster :: "'v \<Rightarrow> 'v"
  nesting_level :: "'v \<Rightarrow> int"
  rank :: "'v \<Rightarrow> int"

definition degree_lookup :: "'a digraph \<Rightarrow> ('a digraph \<Rightarrow> 'a \<Rightarrow> nat) \<Rightarrow> 'a \<Rightarrow> error + nat" where
  "degree_lookup g d v = (if v \<in> set (nodes g) then Inr (d g v) else Inl KeyError)"

definition adjacency :: "'a digraph \<Rightarrow> 'a \<Rightarrow> error + 'a list" where
  "adjacency g c = (if c \<in> set (nodes g) then Inr (dedup (succs g c)) else Inl KeyError)"

fun complex_clusters_loop :: "'v ClusterGraph \<Rightarrow> 'v list \<Rightarrow> 'v list \<Rightarrow> error + 'v list" where
  "complex_clusters_loop CG [] cx = Inr cx"
| "complex_clusters_loop CG (c # cs) cx =
     (case adjacency (cg_T CG) c of
        Inl e \<Rightarrow> Inl e
      | Inr vs \<Rightarrow>
          complex_clusters_loop CG cs
            (if \<exists>v \<in> set vs. v \<in> set (nodes (cg_G CG))
                  \<and> (in_degree (cg_G CG) v > 1 \<or> out_degree (cg_G CG) v > 1)
             then insert_new c cx else cx))"

definition complex_clusters :: "'v ClusterGraph \<Rightarrow> error + 'v list" where
  "complex_clusters CG = complex_clusters_loop CG (cg_S CG) []"

definition stops :: "'v ClusterGraph \<Rightarrow> 'v list \<Rightarrow> 'v \<Rightarrow> 'v \<Rightarrow> error + bool" where
  "stops CG cx u v =
     (if in_degree (cg_G CG) v > 1 \<or> out_degree (cg_G CG) v > 1 then Inr True
      else
        (let c1 = cluster CG u; c2 = cluster CG v in
         if c1 \<noteq> c2 then
           (let cu = (if nesting_level CG c2 < nesting_level CG c1 then c2 else c1);
                cv = (if nesting_level CG c2 < nesting_level CG c1 then c1 else c2)
            in case has_path (cg_T CG) cu cv of
                 Inl e \<Rightarrow> Inl e
               | Inr True \<Rightarrow> Inr (cv \<in> set cx)
               | Inr False \<Rightarrow> Inr (c1 \<in> set cx \<or> c2 \<in> set cx))
         else Inr False))"

fun extend_chain :: "'v ClusterGraph \<Rightarrow> 'v list \<Rightarrow> 'v \<Rightarrow> 'v list \<Rightarrow> error + 'v list" where
  "extend_chain CG cx u [] = Inr []"
| "extend_chain CG cx u (v # succ) =
     (case stops CG cx u v of
        Inl e \<Rightarrow> Inl e
      | Inr True \<Rightarrow> Inr []
      | Inr False \<Rightarrow>
          (case extend_chain CG cx u succ of Inl e \<Rightarrow> Inl e | Inr vs \<Rightarrow> Inr (v # vs)))"

definition segment_step ::
  "'v ClusterGraph \<Rightarrow> 'v list \<Rightarrow> 'v \<Rightarrow> 'v list list \<times> 'v list \<Rightarrow> error + 'v list list \<times> 'v list" where
  "segment_step CG cx u ls =
     (if u \<in> set (snd ls) then Inr ls
      else
        (case degree_lookup (cg_G CG) out_degree u of
           Inl e \<Rightarrow> Inl e
         | Inr d \<Rightarrow>
             if d > 1 then Inr (fst ls @ [[u]], snd ls)
             else
               (case dfs_preorder_nodes (cg_G CG) u of
                  [] \<Rightarrow> Inl StopIteration
                | first # succ \<Rightarrow>
                    (case extend_chain CG cx u succ of
                       Inl e \<Rightarrow> Inl e
                     | Inr vs \<Rightarrow> Inr (fst ls @ [first # vs], snd ls @ (first # vs))))))"

fun segment_loop ::
  "'v ClusterGraph \<Rightarrow> 'v list \<Rightarrow> 'v list \<Rightarrow> 'v list list \<times> 'v list \<Rightarrow> error + 'v list list \<times> 'v list" where
  "segment_loop CG cx [] ls = Inr ls"
| "segment_loop CG cx (u # us) ls =
     (case segment_step CG cx u ls of
        Inl e \<Rightarrow> Inl e
      | Inr ls' \<Rightarrow> segment_loop CG cx us ls')"

definition get_linear_segments :: "'v ClusterGraph \<Rightarrow> error + 'v list list" where
  "get_linear_segments CG =
     (case complex_clusters CG of
        Inl e \<Rightarrow> Inl e
      | Inr cx \<Rightarrow>
          (case segment_loop CG cx (concat (columns CG)) ([], []) of
             Inl e \<Rightarrow> Inl e
           | Inr ls \<Rightarrow> Inr (fst ls)))"

definition split :: "'v list \<Rightarrow> 'v \<Rightarrow> error + 'v list \<times> 'v list" where
  "split segment_nodes v =
     (case list_index segment_nodes v of
        Inl e \<Rightarrow> Inl e
      | Inr i \<Rightarrow>
          (let new_segment = drop i segment_nodes
           in Inr (fold remove1 new_segment segment_nodes, new_segment)))"


text \<open>
  The layering that the earlier phases of the layout establish and the data model asks for:
  the columns hold every node of the graph exactly once, in ascending rank (a column is the
  group of one rank), every edge joins two nodes of the graph and leads to a higher rank, and
  the clusters in \<open>S\<close> and the cluster of every node are nodes of the cluster tree.
\<close>

definition layered :: "'v ClusterGraph \<Rightarrow> bool" where
  "layered CG \<longleftrightarrow>
     distinct (concat (columns CG))
     \<and> set (concat (columns CG)) = set (nodes (cg_G CG))
     \<and> sorted (map (rank CG) (concat (columns CG)))
     \<and> list_all (\<lambda>e. fst e \<in> set (nodes (cg_G CG)) \<and> snd e \<in> set (nodes (cg_G CG))
                      \<and> rank CG (fst e) < rank CG (snd e)) (edges (cg_G CG))
     \<and> list_all (\<lambda>v. cluster CG v \<in> set (nodes (cg_T CG))) (nodes (cg_G CG))
     \<and> list_all (\<lambda>c. c \<in> set (nodes (cg_T CG))) (cg_S CG)"



text \<open>
  \<open>ClusterGraph.__init__\<close> (\<open>sugiyama.py\<close>). \<open>get_nesting_relations(v)\<close> follows the
  \<open>cluster\<close> pointers from \<open>v\<close> upwards, here the function \<open>parent\<close>, and yields the pairs
  (cluster, member); every step of it is a nested generator, so a chain of pointers longer
  than the recursion limit of the interpreter, and every cyclic one, ends in
  \<open>RecursionError\<close>. \<open>T\<close> is the \<open>DiGraph\<close> of these pairs for all nodes of \<open>G\<close>, \<open>S\<close> the
  nodes of \<open>T\<close> of type \<open>CLUSTER\<close>. \<open>chain_ends n parent v\<close>: the pointers from \<open>v\<close> end
  within \<open>n\<close> steps.
\<close>

fun collect :: "('a \<Rightarrow> error + 'b list) \<Rightarrow> 'a list \<Rightarrow> error + 'b list" where
  "collect f [] = Inr []"
| "collect f (x # xs) =
     (case f x of
        Inl e \<Rightarrow> Inl e
      | Inr ys \<Rightarrow> (case collect f xs of Inl e \<Rightarrow> Inl e | Inr zs \<Rightarrow> Inr (ys @ zs)))"

fun get_nesting_relations :: "nat \<Rightarrow> ('v \<Rightarrow> 'v option) \<Rightarrow> 'v \<Rightarrow> error + ('v \<times> 'v) list" where
  "get_nesting_relations 0 parent v = Inl RecursionError"
| "get_nesting_relations (Suc depth) parent v =
     (case parent v of
        None \<Rightarrow> Inr []
      | Some c \<Rightarrow>
          (case get_nesting_relations depth parent c of
             Inl e \<Rightarrow> Inl e
           | Inr relations \<Rightarrow> Inr ((c, v) # relations)))"

definition ClusterGraph_init ::
  "nat \<Rightarrow> ('v \<Rightarrow> 'v option) \<Rightarrow> ('v \<Rightarrow> bool) \<Rightarrow> 'v digraph \<Rightarrow> error + 'v digraph \<times> 'v list" where
  "ClusterGraph_init recursion_limit parent cluster_type g =
     (case collect (get_nesting_relations recursion_limit parent) (nodes g) of
        Inl e \<Rightarrow> Inl e
      | Inr relations \<Rightarrow>
          (let t = add_edges_from relations empty_digraph
           in Inr (t, filter cluster_type (nodes t))))"


text \<open>
  Inputs. In all of them the nodes are in the one cluster 100 (\<open>parent_tree\<close>), and \<open>T\<close> and
  \<open>S\<close> are what \<open>ClusterGraph.__init__\<close> builds. \<open>CG_path\<close> is a path 1, 2, 3 and an
  isolated node 4 in three columns. In \<open>CG_reversed\<close> the columns are the groups of equal
  rank in ascending rank, but the edge (1, 2) leads from rank 1 to rank 0. In \<open>CG_unplaced\<close>
  node 3 is in no column. In \<open>parent_cyclic\<close> the clusters 100 and 101 contain each other.
\<close>

definition parent_tree :: "nat \<Rightarrow> nat option" where
  "parent_tree v = (if v = 100 then None else Some 100)"


definition CG_path :: "nat ClusterGraph" where
  "CG_path = \<lparr>cg_G = \<lparr>nodes = [1, 2, 3, 4], edges = [(1, 2), (2, 3)]\<rparr>,
     cg_T = \<lparr>nodes = [100, 1, 2, 3, 4], edges = [(100, 1), (100, 2), (100, 3), (100, 4)]\<rparr>,
     cg_S = [100], columns = [[1, 4], [2], [3]],
     cluster = (\<lambda>v. 100), nesting_level = (\<lambda>c. 0),
     rank = (\<lambda>v. if v = 2 then 1 else if v = 3 then 2 else 0)\<rparr>"

definition CG_reversed :: "nat ClusterGraph" where
  "CG_reversed = \<lparr>cg_G = \<lparr>nodes = [1, 2], edges = [(1, 2)]\<rparr>,
     cg_T = \<lparr>nodes = [100, 1, 2], edges = [(100, 1), (100, 2)]\<rparr>,
     cg_S = [100], columns = [[2], [1]],
     cluster = (\<lambda>v. 100), nesting_level = (\<lambda>c. 0),
     rank = (\<lambda>v. if v = 1 then 1 else 0)\<rparr>"


section \<open>Balance placement: the mode switch of \<open>balance_placement\<close>\<close>

text \<open>
  \<open>placement/linear_segments.py\<close>, \<open>balance_placement\<close>. The loop keeps five control
  variables: \<open>pendulum_iters\<close>, \<open>final_iters\<close>, \<open>ready\<close>, \<open>mode\<close> and
  \<open>prev_total_deflection\<close>, which starts as \<open>inf\<close> (\<open>None\<close> below) and is reset to
  \<open>inf\<close> when the mode becomes \<open>RUBBER\<close>. The first half of the loop body (deflection of
  every segment, \<open>merge_regions\<close>, moving the nodes) is the parameter \<open>relax\<close>: it maps the
  mode and the layout to the total absolute deflection of the pass and the moved layout.
\<close>

datatype Mode = FORW_PENDULUM | BACKW_PENDULUM | RUBBER

record control =
  pendulum_iters :: int
  final_iters :: int
  ready :: bool
  mode :: Mode
  prev_total_deflection :: "rat option"

definition DEFLECTION_ITERS :: int where "DEFLECTION_ITERS = 10"
definition PENDULUM_ITERS :: int where "PENDULUM_ITERS = 4"
definition FINAL_ITERS :: int where "FINAL_ITERS = 3"
definition THRESH_FAC :: rat where "THRESH_FAC = 20"

text \<open>\<open>total_deflection < prev_total_deflection\<close> where the right side may be \<open>inf\<close>.\<close>

definition lt_prev :: "rat \<Rightarrow> rat option \<Rightarrow> bool" where
  "lt_prev t p = (case p of None \<Rightarrow> True | Some q \<Rightarrow> t < q)"

text \<open>\<open>prev_total_deflection - total_deflection < _THRESH_FAC / _ITERS\<close>; \<open>inf - t\<close> is \<open>inf\<close>.\<close>

definition small_gain :: "rat \<Rightarrow> rat option \<Rightarrow> bool" where
  "small_gain t p = (case p of None \<Rightarrow> False
     | Some q \<Rightarrow> q - t < THRESH_FAC / of_int DEFLECTION_ITERS)"

definition initial_control :: control where
  "initial_control = \<lparr>pendulum_iters = PENDULUM_ITERS, final_iters = FINAL_ITERS,
     ready = False, mode = FORW_PENDULUM, prev_total_deflection = None\<rparr>"

text \<open>The second half of the loop body: the \<open>if mode in {...}: ... else: ...\<close> statement.\<close>

definition update_mode :: "rat \<Rightarrow> control \<Rightarrow> control" where
  "update_mode total_deflection c =
    (if mode c = FORW_PENDULUM \<or> mode c = BACKW_PENDULUM then
       (let p = pendulum_iters c - 1 in
        if p \<le> 0 \<and> (lt_prev total_deflection (prev_total_deflection c) \<or> - p > DEFLECTION_ITERS)
        then c\<lparr>pendulum_iters := p, mode := RUBBER, prev_total_deflection := None\<rparr>
        else c\<lparr>pendulum_iters := p,
               mode := (if mode c = FORW_PENDULUM then BACKW_PENDULUM else FORW_PENDULUM),
               prev_total_deflection := Some total_deflection\<rparr>)
     else
       (let r = (\<not> lt_prev total_deflection (prev_total_deflection c)
                 \<or> small_gain total_deflection (prev_total_deflection c)) in
        c\<lparr>ready := r, prev_total_deflection := Some total_deflection,
          final_iters := (if r then final_iters c - 1 else final_iters c)\<rparr>))"

text \<open>
  The \<open>while True\<close> loop with its only exit \<open>if ready and final_iters > 0: break\<close>. The
  loop need not end (the deflection may keep improving), so a run that never leaves the
  loop is \<open>None\<close>. The result carries the number of passes made.
\<close>

partial_function (option) balance_loop ::
  "(Mode \<Rightarrow> 'g \<Rightarrow> rat \<times> 'g) \<Rightarrow> nat \<Rightarrow> control \<Rightarrow> 'g \<Rightarrow> (nat \<times> control \<times> 'g) option" where
  "balance_loop relax n c g =
     (case relax (mode c) g of (total_deflection, g') \<Rightarrow>
        (let c' = update_mode total_deflection c in
         if ready c' \<and> final_iters c' > 0 then Some (Suc n, c', g')
         else balance_loop relax (Suc n) c' g'))"

definition balance_placement ::
  "(Mode \<Rightarrow> 'g \<Rightarrow> rat \<times> 'g) \<Rightarrow> 'g \<Rightarrow> (nat \<times> control \<times> 'g) option" where
  "balance_placement relax g = balance_loop relax 0 initial_control g"

text \<open>
  A layout none of whose segments has an edge to another segment: \<open>calc_deflection\<close> gives
  every segment deflection 0 and weight 0, \<open>merge_regions\<close> merges nothing, no node moves,
  and the total deflection of every pass is 0.
\<close>

definition still :: "Mode \<Rightarrow> unit \<Rightarrow> rat \<times> unit" where
  "still m g = (0, g)"

section \<open>Properties\<close>

subsection \<open>Balance placement\<close>

text \<open>
  C9 (code evaluated at the failing input). On a layout whose deflections are all 0 the
  loop makes 15 pendulum passes and two rubber passes and then ends: the second rubber
  pass is the first one at which the stabilization condition holds, \<open>final_iters\<close> goes
  from 3 to 2, and the exit test \<open>ready and final_iters > 0\<close> is true at once. The loop
  ends after one confirming pass, not three.
\<close>

theorem balance_placement_exits_after_one_confirming_pass:
  "balance_placement still () =
     Some (17, \<lparr>pendulum_iters = -11, final_iters = 2, ready = True, mode = RUBBER,
                prev_total_deflection = Some 0\<rparr>, ())"
  unfolding balance_placement_def initial_control_def
  by (simp add: balance_loop.simps update_mode_def still_def lt_prev_def small_gain_def
      DEFLECTION_ITERS_def PENDULUM_ITERS_def FINAL_ITERS_def THRESH_FAC_def)

subsection \<open>Socket ranks\<close>

lemma rank_sockets_other: "s \<notin> set ss \<Longrightarrow> rank_sockets incr r ss m s = m s"
  by (induction ss arbitrary: r m) auto

lemma rank_sockets_nth:
  "distinct ss \<Longrightarrow> k < length ss \<Longrightarrow>
   rank_sockets incr r ss m (ss ! k) = Some (r + of_nat (Suc k) * incr)"
proof (induction ss arbitrary: r m k)
  case Nil then show ?case by simp
next
  case (Cons a ss)
  show ?case
  proof (cases k)
    case 0
    then show ?thesis using Cons.prems by (simp add: rank_sockets_other)
  next
    case (Suc j)
    have "rank_sockets incr (r + incr) ss (m(a \<mapsto> r + incr)) (ss ! j)
            = Some (r + incr + of_nat (Suc j) * incr)"
      using Cons.prems Suc by (intro Cons.IH) auto
    moreover have "r + incr + of_nat (Suc j) * incr = r + of_nat (Suc k) * incr"
      using Suc by (simp add: algebra_simps)
    ultimately show ?thesis using Suc by simp
  qed
qed

lemma index_from_Some: "x \<in> set xs \<Longrightarrow> \<exists>i. index_from n xs x = Some i"
  by (induction xs arbitrary: n) auto

lemma index_from_nth: "index_from n xs x = Some i \<Longrightarrow> n \<le> i \<and> i - n < length xs \<and> xs ! (i - n) = x"
proof (induction xs arbitrary: n)
  case Nil then show ?case by simp
next
  case (Cons y ys)
  show ?case
  proof (cases "y = x")
    case True then show ?thesis using Cons.prems by auto
  next
    case False
    then have "index_from (Suc n) ys x = Some i" using Cons.prems by simp
    from Cons.IH[OF this] have *: "Suc n \<le> i" "i - Suc n < length ys" "ys ! (i - Suc n) = x" by auto
    then have "i - n = Suc (i - Suc n)" by simp
    then show ?thesis using * by simp
  qed
qed

lemma list_index_mem: "x \<in> set xs \<Longrightarrow> \<exists>i. list_index xs x = Inr i"
  using index_from_Some[of x xs 0] by (auto simp: list_index_def)

lemma calc_socket_ranks_loop_col: "calc_socket_ranks_loop f items st = Inr st' \<Longrightarrow> col st' = col st"
  by (induction items arbitrary: st) (auto split: sum.splits simp: Let_def)

lemma calc_socket_ranks_loop_other:
  "calc_socket_ranks_loop f items st = Inr st' \<Longrightarrow> v \<notin> fst ` set items \<Longrightarrow>
   socket_ranks st' v = socket_ranks st v"
  by (induction items arbitrary: st) (auto split: sum.splits simp: Let_def)

lemma calc_socket_ranks_loop_total:
  "\<forall>(v, ss) \<in> set items. v \<in> set (col st v) \<Longrightarrow> \<exists>st'. calc_socket_ranks_loop f items st = Inr st'"
proof (induction items arbitrary: st)
  case Nil then show ?case by simp
next
  case (Cons a items)
  obtain v ss where a: "a = (v, ss)" by (cases a)
  obtain i where i: "list_index (col st v) v = Inr i" using Cons.prems a list_index_mem by fastforce
  show ?case using Cons.IH Cons.prems by (simp add: a i Let_def)
qed

lemma calc_socket_ranks_loop_at:
  "calc_socket_ranks_loop f items st = Inr st' \<Longrightarrow> distinct (map fst items) \<Longrightarrow>
   (v, ss) \<in> set items \<Longrightarrow> list_index (col st v) v = Inr i \<Longrightarrow>
   socket_ranks st' v = rank_sockets (if f then - (1 / (of_nat (length ss) + 1)) else 1 / (of_nat (length ss) + 1))
      (of_nat i + 1) ss (socket_ranks st v)"
proof (induction items arbitrary: st)
  case Nil then show ?case by simp
next
  case (Cons a items)
  obtain w ws where a: "a = (w, ws)" by (cases a)
  show ?case
  proof (cases "w = v")
    case True
    then have "ws = ss" using Cons.prems a by (auto simp: image_iff)
    moreover have "v \<notin> fst ` set items" using Cons.prems a True by auto
    ultimately show ?thesis using Cons.prems a True
      by (auto split: sum.splits simp: Let_def dest!: calc_socket_ranks_loop_other)
  next
    case False
    then show ?thesis using Cons.prems a
      by (auto split: sum.splits simp: Let_def intro!: Cons.IH[THEN trans])
  qed
qed

subsection \<open>Barycenters\<close>

lemma socket_rank_list_cong:
  "socket_ranks st1 = socket_ranks st2 \<Longrightarrow> socket_rank_list st1 ss = socket_rank_list st2 ss"
  by (induction ss) (auto split: option.splits sum.splits)

lemma socket_rank_list_total:
  "\<forall>s \<in> set ss. socket_ranks st (owner s) s \<noteq> None \<Longrightarrow> \<exists>rs. socket_rank_list st ss = Inr rs"
  by (induction ss) (auto split: option.splits sum.splits)

lemma socket_rank_list_length: "socket_rank_list st ss = Inr rs \<Longrightarrow> length rs = length ss"
  by (induction ss arbitrary: rs) (auto split: option.splits sum.splits)

lemma calc_barycenters_loop_ranks:
  "calc_barycenters_loop fs ws st = Inr st' \<Longrightarrow> socket_ranks st' = socket_ranks st"
  by (induction ws arbitrary: st)
     (auto split: option.splits sum.splits if_splits prod.splits simp: Let_def uniform01_def)

lemma calc_barycenters_loop_other:
  "calc_barycenters_loop fs ws st = Inr st' \<Longrightarrow> w \<notin> set ws \<Longrightarrow> barycenter st' w = barycenter st w"
  by (induction ws arbitrary: st)
     (auto split: option.splits sum.splits if_splits prod.splits simp: Let_def uniform01_def)

lemma calc_barycenters_loop_no_sockets:
  "calc_barycenters_loop fs ws st = Inr st' \<Longrightarrow> map_of fs w = Some [] \<Longrightarrow> barycenter st' w = barycenter st w"
  by (induction ws arbitrary: st)
     (auto split: option.splits sum.splits if_splits prod.splits simp: Let_def uniform01_def)

lemma calc_barycenters_loop_total:
  "\<forall>w \<in> set ws. \<exists>ss. map_of fs w = Some ss \<and> (\<forall>s \<in> set ss. socket_ranks st (owner s) s \<noteq> None)
   \<Longrightarrow> \<exists>st'. calc_barycenters_loop fs ws st = Inr st'"
proof (induction ws arbitrary: st)
  case Nil then show ?case by simp
next
  case (Cons w ws)
  then obtain ss where ss: "map_of fs w = Some ss" "\<forall>s \<in> set ss. socket_ranks st (owner s) s \<noteq> None"
    by auto
  then obtain rs where rs: "socket_rank_list st ss = Inr rs" using socket_rank_list_total by blast
  show ?case
  proof (cases "ss = []")
    case True
    then show ?thesis using ss Cons by simp
  next
    case False
    let ?st = "(snd (uniform01 st))\<lparr>barycenter := (barycenter (snd (uniform01 st)))
       (w \<mapsto> (sum_list rs + (fst (uniform01 st) * RANDOM_AMOUNT - RANDOM_AMOUNT / 2)) / of_nat (length ss))\<rparr>"
    have "socket_ranks ?st = socket_ranks st" by (simp add: uniform01_def)
    then have "\<exists>st'. calc_barycenters_loop fs ws ?st = Inr st'"
      using Cons.prems by (intro Cons.IH) auto
    then show ?thesis using ss rs False by (simp add: Let_def case_prod_beta)
  qed
qed

lemma calc_barycenters_loop_at:
  "calc_barycenters_loop fs ws st = Inr st' \<Longrightarrow> distinct ws \<Longrightarrow> w \<in> set ws \<Longrightarrow>
   map_of fs w = Some ss \<Longrightarrow> ss \<noteq> [] \<Longrightarrow> socket_rank_list st ss = Inr ranks \<Longrightarrow>
   barycenter st' w = Some ((sum_list ranks
        + (random st (draws_before fs ws w) * RANDOM_AMOUNT - RANDOM_AMOUNT / 2)) / of_nat (length ss))"
proof (induction ws arbitrary: st)
  case Nil then show ?case by simp
next
  case (Cons x ws)
  show ?case
  proof (cases "x = w")
    case True
    let ?st = "(snd (uniform01 st))\<lparr>barycenter := (barycenter (snd (uniform01 st)))
       (w \<mapsto> (sum_list ranks + (fst (uniform01 st) * RANDOM_AMOUNT - RANDOM_AMOUNT / 2)) / of_nat (length ss))\<rparr>"
    have run: "calc_barycenters_loop fs ws ?st = Inr st'"
      using Cons.prems True by (simp add: Let_def case_prod_beta)
    have "w \<notin> set ws" using Cons.prems True by simp
    from calc_barycenters_loop_other[OF run this] show ?thesis
      using True by (simp add: uniform01_def)
  next
    case False
    then have w: "w \<in> set ws" "distinct ws" using Cons.prems by auto
    obtain xs where xs: "map_of fs x = Some xs" using Cons.prems(1) by (auto split: option.splits)
    show ?thesis
    proof (cases "xs = []")
      case True
      then have "calc_barycenters_loop fs ws st = Inr st'" using Cons.prems(1) xs by simp
      from Cons.IH[OF this w(2,1) Cons.prems(4,5,6)] show ?thesis using False xs True by simp
    next
      case nonempty: False
      then obtain rs where rs: "socket_rank_list st xs = Inr rs"
        using Cons.prems(1) xs by (auto split: sum.splits)
      let ?st = "(snd (uniform01 st))\<lparr>barycenter := (barycenter (snd (uniform01 st)))
         (x \<mapsto> (sum_list rs + (fst (uniform01 st) * RANDOM_AMOUNT - RANDOM_AMOUNT / 2)) / of_nat (length xs))\<rparr>"
      have run: "calc_barycenters_loop fs ws ?st = Inr st'"
        using Cons.prems(1) xs nonempty rs by (simp add: Let_def case_prod_beta)
      have "socket_ranks ?st = socket_ranks st" by (simp add: uniform01_def)
      then have "socket_rank_list ?st ss = Inr ranks"
        using Cons.prems(6) socket_rank_list_cong[of ?st st ss] by simp
      from Cons.IH[OF run w(2,1) Cons.prems(4,5) this] show ?thesis
        using False xs nonempty by (simp add: uniform01_def)
    qed
  qed
qed

text \<open>
  C8, the claim as stated fails for an element with two sockets: with ranks 1 and 2 and
  the draw 0 the barycenter is 593/400, not the mean 3/2 plus the perturbation
  \<open>0 * 0.07 - 0.035\<close>.
\<close>

theorem calc_barycenters_mean_counterexample:
  "barycenter_after H8 st8 1 = Inr (Some (593 / 400))
   \<and> socket_rank_list st8 [Socket 0 0 True, Socket 0 1 True] = Inr [1, 2]
   \<and> (593 / 400 :: rat) \<noteq> (1 + 2) / 2 + (random st8 0 * RANDOM_AMOUNT - RANDOM_AMOUNT / 2)"
  by (simp add: barycenter_after_def calc_barycenters_def H8_def st8_def uniform01_def
      RANDOM_AMOUNT_def)

text \<open>
  C8, amended. The perturbation \<open>u * 0.07 - 0.035\<close>, with \<open>u\<close> the draw of \<open>uniform(0, 1)\<close>,
  is added to the sum of the socket ranks before the division by the number \<open>n\<close> of
  sockets: the barycenter of a free element with sockets is the mean of its socket ranks
  plus the perturbation divided by \<open>n\<close>, and the perturbation lies between -0.035 and
  0.035. A free element without sockets keeps the barycenter it had, and
  \<open>calc_barycenters\<close> returns whenever every free element has an entry in \<open>free_sockets\<close>
  and every socket there has a rank.
\<close>

theorem calc_barycenters_value:
  assumes dist: "distinct (free_col H)"
    and known: "\<forall>x \<in> set (free_col H). \<exists>ss. map_of (free_sockets H) x = Some ss
                  \<and> (\<forall>s \<in> set ss. socket_ranks st (owner s) s \<noteq> None)"
    and w: "w \<in> set (free_col H)" and ss: "map_of (free_sockets H) w = Some sockets"
    and unit: "\<forall>n. 0 \<le> random st n \<and> random st n \<le> 1"
  shows "\<exists>st'. calc_barycenters H st = Inr st' \<and>
     (if sockets = [] then barycenter st' w = barycenter st w
      else \<exists>ranks. socket_rank_list st sockets = Inr ranks \<and>
        (let n = rat_of_nat (length sockets);
             u = random st (draws_before (free_sockets H) (free_col H) w);
             perturbation = u * RANDOM_AMOUNT - RANDOM_AMOUNT / 2
         in barycenter st' w = Some (sum_list ranks / n + perturbation / n)
            \<and> - (RANDOM_AMOUNT / 2) \<le> perturbation \<and> perturbation \<le> RANDOM_AMOUNT / 2))"
proof -
  obtain st' where run: "calc_barycenters_loop (free_sockets H) (free_col H) st = Inr st'"
    using calc_barycenters_loop_total[OF known] by blast
  show ?thesis
  proof (cases "sockets = []")
    case True
    then show ?thesis using run ss calc_barycenters_loop_no_sockets[OF run, of w]
      by (simp add: calc_barycenters_def)
  next
    case False
    have "\<forall>s \<in> set sockets. socket_ranks st (owner s) s \<noteq> None" using known w ss by fastforce
    then obtain ranks where ranks: "socket_rank_list st sockets = Inr ranks"
      using socket_rank_list_total by blast
    let ?u = "random st (draws_before (free_sockets H) (free_col H) w)"
    have "0 \<le> ?u" "?u \<le> 1" using unit by auto
    then have b: "- (RANDOM_AMOUNT / 2) \<le> ?u * RANDOM_AMOUNT - RANDOM_AMOUNT / 2"
        "?u * RANDOM_AMOUNT - RANDOM_AMOUNT / 2 \<le> RANDOM_AMOUNT / 2"
      by (simp_all add: RANDOM_AMOUNT_def)
    have "barycenter st' w = Some ((sum_list ranks + (?u * RANDOM_AMOUNT - RANDOM_AMOUNT / 2))
        / rat_of_nat (length sockets))"
      by (rule calc_barycenters_loop_at[OF run dist w ss False ranks])
    then show ?thesis using run False ranks b
      by (simp add: calc_barycenters_def Let_def add_divide_distrib mult.commute)
  qed
qed

theorem calc_barycenters_value_witness:
  "distinct (free_col H8)
   \<and> 1 \<in> set (free_col H8)
   \<and> map_of (free_sockets H8) 1 = Some [Socket 0 0 True, Socket 0 1 True]
   \<and> (\<forall>n. 0 \<le> random st8 n \<and> random st8 n \<le> 1)
   \<and> (\<exists>st'. calc_barycenters H8 st8 = Inr st'
         \<and> barycenter st' 1 = Some (3 / 2 + (- (7 / 200)) / 2))"
  using calc_barycenters_value[of H8 st8 1 "[Socket 0 0 True, Socket 0 1 True]"]
  by (simp add: H8_def st8_def Let_def RANDOM_AMOUNT_def)

subsection \<open>Constraints\<close>

lemma first_violated_mem: "first_violated b v cs = Inr (Some c) \<Longrightarrow> c \<in> set cs"
  by (induction cs) (auto split: option.splits if_splits)

lemma fold_note_constraint_edges:
  "\<forall>t. set (fst ia t) \<subseteq> set (edges g) \<Longrightarrow> set ts \<subseteq> set (succs g v) \<Longrightarrow>
   \<forall>t. set (fst (fold (note_constraint g v) ts ia) t) \<subseteq> set (edges g)"
proof (induction ts arbitrary: ia)
  case Nil then show ?case by simp
next
  case (Cons t ts)
  have "(v, t) \<in> set (edges g)" using Cons.prems(2) by (auto simp: succs_def)
  then have "\<forall>u. set (fst (note_constraint g v t ia) u) \<subseteq> set (edges g)"
    using Cons.prems(1) by (auto simp: note_constraint_def Let_def)
  then show ?case using Cons.prems(2) Cons.IH[of "note_constraint g v t ia"] by simp
qed

lemma sweep_edge:
  "sweep b g active inc = Inr (Some c) \<Longrightarrow> \<forall>t. set (inc t) \<subseteq> set (edges g) \<Longrightarrow> c \<in> set (edges g)"
proof (induction b g active inc rule: sweep.induct)
  case (1 b g inc)
  then show ?case by simp
next
  case (2 b g v active inc)
  show ?case
  proof (cases "first_violated b v (inc v)")
    case (Inl e)
    then show ?thesis using "2.prems" by simp
  next
    case (Inr r)
    show ?thesis
    proof (cases r)
      case None
      let ?ia = "fold (note_constraint g v) (succs g v) (inc, active)"
      have run: "sweep b g (snd ?ia) (fst ?ia) = Inr (Some c)"
        using "2.prems"(1) Inr None by (simp add: Let_def)
      have inv: "\<forall>t. set (fst ?ia t) \<subseteq> set (edges g)"
        using fold_note_constraint_edges[of "(inc, active)" g "succs g v" v] "2.prems"(2) by simp
      show ?thesis using "2.IH"[OF Inr None refl run inv] .
    next
      case (Some c')
      then have "c' = c" using "2.prems"(1) Inr by simp
      then show ?thesis using first_violated_mem[of b v "inc v" c] Inr Some "2.prems"(2) by auto
    qed
  qed
qed

lemma find_violated_constraint_edge:
  "find_violated_constraint b g = Inr (Some c) \<Longrightarrow> c \<in> set (edges g)"
  unfolding find_violated_constraint_def by (erule sweep_edge) simp


lemma nodes_add_node: "nodes (add_node v g) = (if v \<in> set (nodes g) then nodes g else nodes g @ [v])"
  by (simp add: add_node_def)

lemma edges_add_node: "edges (add_node v g) = edges g"
  by (simp add: add_node_def)

lemma nodes_add_edge:
  "u \<in> set (nodes g) \<Longrightarrow>
   nodes (add_edge (u, v) g) = (if v \<in> set (nodes g) then nodes g else nodes g @ [v])"
  by (simp add: add_edge_def Let_def nodes_add_node)

lemma set_edges_add_edge: "set (edges (add_edge e g)) = insert e (set (edges g))"
  by (auto simp: add_edge_def Let_def edges_add_node)

lemma fold_add_edge_nodes:
  "set us \<subseteq> set (nodes g) \<Longrightarrow>
   nodes (fold (\<lambda>u. add_edge (u, v)) us g)
     = (if us = [] \<or> v \<in> set (nodes g) then nodes g else nodes g @ [v])"
proof (induction us arbitrary: g)
  case Nil then show ?case by simp
next
  case (Cons u us)
  have u: "u \<in> set (nodes g)" using Cons.prems by simp
  have sub: "set us \<subseteq> set (nodes (add_edge (u, v) g))"
    using Cons.prems by (auto simp: nodes_add_edge[OF u])
  show ?case using Cons.IH[OF sub] by (auto simp: nodes_add_edge[OF u])
qed

lemma fold_add_edge_edges:
  "set (edges (fold (\<lambda>u. add_edge (u, v)) us g)) = set (edges g) \<union> (\<lambda>u. (u, v)) ` set us"
  by (induction us arbitrary: g) (auto simp: set_edges_add_edge)

lemma nodes_remove_node: "nodes (remove_node v g) = removeAll v (nodes g)"
  by (simp add: remove_node_def)

lemma set_edges_remove_node:
  "set (edges (remove_node v g)) = {e \<in> set (edges g). fst e \<noteq> v \<and> snd e \<noteq> v}"
  by (auto simp: remove_node_def)

lemma wf_digraphI:
  "distinct (nodes g) \<Longrightarrow>
   (\<And>a b. (a, b) \<in> set (edges g) \<Longrightarrow> a \<in> set (nodes g) \<and> b \<in> set (nodes g) \<and> a \<noteq> b) \<Longrightarrow>
   wf_digraph g"
  by (auto simp: wf_digraph_def list_all_iff)

lemma wf_digraphD:
  "wf_digraph g \<Longrightarrow> (a, b) \<in> set (edges g) \<Longrightarrow> a \<in> set (nodes g) \<and> b \<in> set (nodes g) \<and> a \<noteq> b"
  by (auto simp: wf_digraph_def list_all_iff)

lemma wf_digraph_distinct: "wf_digraph g \<Longrightarrow> distinct (nodes g)"
  by (simp add: wf_digraph_def)

lemma wf_remove_edge: "wf_digraph g \<Longrightarrow> wf_digraph (remove_edge e g)"
  by (auto simp: wf_digraph_def remove_edge_def list_all_iff)

lemma rewire_props:
  assumes wf: "wf_digraph g" and c: "(s, t) \<in> set (edges g)" and fresh: "v \<notin> set (nodes g)"
  shows "wf_digraph (rewire v (s, t) g)"
    and "Suc (length (nodes (rewire v (s, t) g))) = length (nodes g)"
    and "set (nodes (rewire v (s, t) g)) \<subseteq> insert v (set (nodes g))"
    and "2 \<le> length (nodes g)"
proof -
  define us where "us = preds g s @ preds g t"
  define g1 where "g1 = fold (\<lambda>u. add_edge (u, v)) us g"
  define g2 where "g2 = remove_node t (remove_node s g1)"
  have st: "s \<in> set (nodes g)" "t \<in> set (nodes g)" "s \<noteq> t" using wf_digraphD[OF wf c] by auto
  have vs: "v \<noteq> s" "v \<noteq> t" using st fresh by auto
  have us: "set us \<subseteq> set (nodes g)"
    using wf_digraphD[OF wf] by (auto simp: preds_def us_def)
  have "s \<in> set (preds g t)" using c by (force simp: preds_def)
  then have ne: "us \<noteq> []" by (auto simp: us_def)
  have n1: "nodes g1 = nodes g @ [v]"
    unfolding g1_def using fold_add_edge_nodes[OF us, of v] ne fresh by simp
  have e1: "set (edges g1) = set (edges g) \<union> (\<lambda>u. (u, v)) ` set us"
    unfolding g1_def by (rule fold_add_edge_edges)
  have n2: "nodes g2 = removeAll t (removeAll s (nodes g)) @ [v]"
    using vs by (simp add: g2_def nodes_remove_node n1)
  have d: "distinct (nodes g)" using wf by (rule wf_digraph_distinct)
  have two: "2 \<le> length (nodes g)"
  proof -
    have "card {s, t} \<le> card (set (nodes g))" using st by (intro card_mono) auto
    then show ?thesis using st distinct_card[OF d] by simp
  qed
  have len: "Suc (length (nodes g2)) = length (nodes g)"
  proof -
    have "length (removeAll s (nodes g)) = length (nodes g) - 1"
      using d st by (simp add: distinct_remove1_removeAll[symmetric] length_remove1)
    moreover have "length (removeAll t (removeAll s (nodes g))) = length (removeAll s (nodes g)) - 1"
      using d st by (simp add: distinct_remove1_removeAll[symmetric] length_remove1)
    ultimately show ?thesis using two by (simp add: n2)
  qed
  have wf2: "wf_digraph g2"
  proof (rule wf_digraphI)
    show "distinct (nodes g2)" using d fresh by (simp add: n2 distinct_removeAll)
  next
    fix a b assume "(a, b) \<in> set (edges g2)"
    then have ab: "(a, b) \<in> set (edges g1)" "a \<noteq> s" "a \<noteq> t" "b \<noteq> s" "b \<noteq> t"
      by (auto simp: g2_def set_edges_remove_node)
    from ab(1) consider "(a, b) \<in> set (edges g)" | "b = v" "a \<in> set us" using e1 by auto
    then show "a \<in> set (nodes g2) \<and> b \<in> set (nodes g2) \<and> a \<noteq> b"
    proof cases
      case 1
      then show ?thesis using wf_digraphD[OF wf 1] ab by (simp add: n2)
    next
      case 2
      then have "a \<in> set (nodes g)" using us by auto
      then show ?thesis using 2 ab fresh by (auto simp: n2)
    qed
  qed
  have rw: "rewire v (s, t) g = (if (v, v) \<in> set (edges g2) then remove_edge (v, v) g2 else g2)"
    by (simp add: rewire_def remove_nodes_from_def Let_def g2_def g1_def us_def)
  have nrm: "nodes (remove_edge (v, v) g2) = nodes g2" by (simp add: remove_edge_def)
  show "wf_digraph (rewire v (s, t) g)" using wf2 wf_remove_edge[OF wf2] by (simp add: rw)
  show "Suc (length (nodes (rewire v (s, t) g))) = length (nodes g)" using len nrm by (simp add: rw)
  show "set (nodes (rewire v (s, t) g)) \<subseteq> insert v (set (nodes g))"
    using nrm by (auto simp: rw n2)
  show "2 \<le> length (nodes g)" by (rule two)
qed

lemma merge_constraint_GC:
  "merge_constraint st n c cs = Inr cs' \<Longrightarrow> GC cs' = rewire (Merged n) c (GC cs)"
  by (auto simp: merge_constraint_def Let_def split: option.splits)

lemma constraint_loop_bound:
  "wf_digraph (GC cs) \<Longrightarrow> \<forall>k\<ge>n. Merged k \<notin> set (nodes (GC cs)) \<Longrightarrow>
   \<exists>m r. constraint_loop st n cs = Some (m, r) \<and> n \<le> m \<and> m - n \<le> length (nodes (GC cs)) - 1
      \<and> (\<forall>cs'. r = Inr cs' \<longrightarrow> length (nodes (GC cs')) + (m - n) = length (nodes (GC cs)))"
proof (induction "length (nodes (GC cs))" arbitrary: n cs rule: less_induct)
  case less
  show ?case
  proof (cases "find_violated_constraint (cnode_barycenter st cs) (GC cs)")
    case (Inl e)
    then show ?thesis by (subst constraint_loop.simps) simp
  next
    case (Inr found)
    show ?thesis
    proof (cases found)
      case None
      then show ?thesis using Inr by (subst constraint_loop.simps) simp
    next
      case (Some c)
      obtain s t where c: "c = (s, t)" by (cases c)
      have edge: "(s, t) \<in> set (edges (GC cs))"
        using find_violated_constraint_edge Inr Some c by fastforce
      have fresh: "Merged n \<notin> set (nodes (GC cs))" using less.prems(2) by simp
      note props = rewire_props[OF less.prems(1) edge fresh]
      have two: "2 \<le> length (nodes (GC cs))" by (rule props(4))
      show ?thesis
      proof (cases "merge_constraint st n c cs")
        case (Inl e)
        then show ?thesis using Inr Some two by (subst constraint_loop.simps) simp
      next
        case merged: (Inr cs')
        have g: "GC cs' = rewire (Merged n) (s, t) (GC cs)"
          using merge_constraint_GC[OF merged] c by simp
        have lt: "length (nodes (GC cs')) < length (nodes (GC cs))" using props(2) g by simp
        have wf': "wf_digraph (GC cs')" using props(1) g by simp
        have fresh': "\<forall>k\<ge>Suc n. Merged k \<notin> set (nodes (GC cs'))"
          using props(3) g less.prems(2) by auto
        from less.hyps[OF lt wf' fresh'] obtain m r where
          run: "constraint_loop st (Suc n) cs' = Some (m, r)" and m: "Suc n \<le> m"
          and b: "m - Suc n \<le> length (nodes (GC cs')) - 1"
          and e: "\<forall>cs''. r = Inr cs'' \<longrightarrow> length (nodes (GC cs'')) + (m - Suc n) = length (nodes (GC cs'))"
          by blast
        have "constraint_loop st n cs = Some (m, r)"
          using Inr Some merged run by (subst constraint_loop.simps) simp
        moreover have "m - n \<le> length (nodes (GC cs)) - 1" using b m props(2) g two by simp
        moreover have "\<forall>cs''. r = Inr cs'' \<longrightarrow> length (nodes (GC cs'')) + (m - n) = length (nodes (GC cs))"
          using e m props(2) g by auto
        ultimately show ?thesis using m by auto
      qed
    qed
  qed
qed


lemma wf_add_edge: "wf_digraph g \<Longrightarrow> a \<noteq> b \<Longrightarrow> wf_digraph (add_edge (a, b) g)"
  by (auto simp: wf_digraph_def add_edge_def add_node_def Let_def list_all_iff)

lemma wf_add_edges_from:
  "wf_digraph g \<Longrightarrow> \<forall>e \<in> set es. fst e \<noteq> snd e \<Longrightarrow> wf_digraph (add_edges_from es g)"
  unfolding add_edges_from_def
proof (induction es arbitrary: g)
  case Nil then show ?case by simp
next
  case (Cons e es)
  obtain a b where e: "e = (a, b)" by (cases e)
  have "wf_digraph (add_edge e g)" using Cons.prems wf_add_edge[of g a b] e by simp
  then show ?case using Cons.IH Cons.prems by simp
qed

lemma set_nodes_add_edge:
  "set (nodes (add_edge e g)) = insert (fst e) (insert (snd e) (set (nodes g)))"
  by (auto simp: add_edge_def add_node_def Let_def)

lemma set_nodes_add_edges_from:
  "set (nodes (add_edges_from es g)) = set (nodes g) \<union> fst ` set es \<union> snd ` set es"
  unfolding add_edges_from_def
  by (induction es arbitrary: g) (auto simp: set_nodes_add_edge)

lemma pairwise_distinct: "distinct xs \<Longrightarrow> (a, b) \<in> set (pairwise_list xs) \<Longrightarrow> a \<noteq> b"
  by (induction xs rule: pairwise_list.induct) auto

lemma pairwise_map: "pairwise_list (map f xs) = map (\<lambda>(a, b). (f a, f b)) (pairwise_list xs)"
  by (induction xs rule: pairwise_list.induct) auto

lemma initial_GC_wf:
  assumes "distinct (constrained_clusters H)"
  shows "wf_digraph (GC (initial_constraint_state H d))"
    and "\<forall>k\<ge>n. Merged k \<notin> set (nodes (GC (initial_constraint_state H d)))"
proof -
  let ?es = "pairwise_list (map Elem (constrained_clusters H))"
  have "distinct (map Elem (constrained_clusters H))" using assms by (simp add: distinct_map inj_on_def)
  then have "\<forall>e \<in> set ?es. fst e \<noteq> snd e" using pairwise_distinct by fastforce
  moreover have "wf_digraph empty_digraph" by (simp add: wf_digraph_def empty_digraph_def)
  ultimately have "wf_digraph (add_edges_from ?es empty_digraph)"
    by (intro wf_add_edges_from)
  then show "wf_digraph (GC (initial_constraint_state H d))"
    by (simp add: initial_constraint_state_def Let_def)
  show "\<forall>k\<ge>n. Merged k \<notin> set (nodes (GC (initial_constraint_state H d)))"
    by (auto simp: initial_constraint_state_def Let_def set_nodes_add_edges_from empty_digraph_def
        pairwise_map)
qed

text \<open>
  C2 (code evaluated at the failing input). The first violated constraint is \<open>(A, B)\<close>;
  the merge adds edges from the predecessors of \<open>A\<close> and \<open>B\<close> to the merged node and
  removes \<open>A\<close> and \<open>B\<close> with their edges, the edge \<open>(B, C)\<close> among them, and nothing
  takes its place. \<open>C\<close>, with barycenter 1, is then sorted before the merged node, with
  barycenter 5/2: the final ranks are \<open>A = 1\<close>, \<open>B = 2\<close>, \<open>C = 0\<close>.
\<close>

theorem handle_constraints_drops_constraint:
  "ranks_after_constraints H_ABC st_ABC [0, 1, 2] = Some (Inr [Some 1, Some 2, Some 0])"
  by code_simp

text \<open>
  \<open>lookups_ok\<close>: every node of the constraint graph has its degree, its barycenter and its
  list \<open>L\<close>. A merge keeps this, and with it neither \<open>find_violated_constraint\<close> nor the
  merge raises.
\<close>

definition lookups_ok :: "'v crossing_state \<Rightarrow> 'v constraint_state \<Rightarrow> bool" where
  "lookups_ok st cs \<longleftrightarrow>
     (\<forall>v \<in> set (nodes (GC cs)). deg cs v \<noteq> None \<and> cnode_barycenter st cs v \<noteq> None \<and> L cs v \<noteq> None)"

lemma first_violated_total:
  "b v \<noteq> None \<Longrightarrow> \<forall>c \<in> set cs. b (fst c) \<noteq> None \<Longrightarrow> \<exists>r. first_violated b v cs = Inr r"
  by (induction cs) auto

lemma fold_note_constraint_active:
  "set (snd ia) \<subseteq> A \<Longrightarrow> set ts \<subseteq> A \<Longrightarrow> set (snd (fold (note_constraint g v) ts ia)) \<subseteq> A"
  by (induction ts arbitrary: ia) (auto simp: note_constraint_def Let_def)

lemma sweep_total:
  "wf_digraph g \<Longrightarrow> \<forall>v \<in> set (nodes g). b v \<noteq> None \<Longrightarrow> set active \<subseteq> set (nodes g) \<Longrightarrow>
   \<forall>t. set (inc t) \<subseteq> set (edges g) \<Longrightarrow> \<exists>r. sweep b g active inc = Inr r"
proof (induction b g active inc rule: sweep.induct)
  case (1 b g inc)
  then show ?case by simp
next
  case (2 b g v active inc)
  have bv: "b v \<noteq> None" using "2.prems" by simp
  have fc: "\<forall>c \<in> set (inc v). b (fst c) \<noteq> None"
  proof
    fix c assume "c \<in> set (inc v)"
    then have "c \<in> set (edges g)" using "2.prems"(4) by auto
    then have "fst c \<in> set (nodes g)" using wf_digraphD[OF "2.prems"(1), of "fst c" "snd c"] by simp
    then show "b (fst c) \<noteq> None" using "2.prems"(2) by simp
  qed
  obtain r where r: "first_violated b v (inc v) = Inr r"
    using first_violated_total[of b v "inc v"] bv fc by blast
  show ?case
  proof (cases r)
    case (Some c)
    then show ?thesis using r by simp
  next
    case None
    let ?ia = "fold (note_constraint g v) (succs g v) (inc, active)"
    have inv: "\<forall>t. set (fst ?ia t) \<subseteq> set (edges g)"
      using fold_note_constraint_edges[of "(inc, active)" g "succs g v" v] "2.prems"(4) by simp
    have "set (succs g v) \<subseteq> set (nodes g)"
      using wf_digraphD[OF "2.prems"(1)] by (auto simp: succs_def)
    then have act: "set (snd ?ia) \<subseteq> set (nodes g)"
      using fold_note_constraint_active[of "(inc, active)" "set (nodes g)" "succs g v" g v] "2.prems"(3)
      by simp
    from "2.IH"[OF r None refl "2.prems"(1,2) act inv]
    show ?thesis using r None by (simp add: Let_def)
  qed
qed

lemma find_violated_constraint_total:
  "wf_digraph g \<Longrightarrow> \<forall>v \<in> set (nodes g). b v \<noteq> None \<Longrightarrow> \<exists>r. find_violated_constraint b g = Inr r"
  unfolding find_violated_constraint_def by (rule sweep_total) auto

lemma merge_constraint_ok:
  assumes ok: "lookups_ok st cs" and wf: "wf_digraph (GC cs)"
    and c: "(s, t) \<in> set (edges (GC cs))" and fresh: "Merged n \<notin> set (nodes (GC cs))"
  shows "\<exists>cs'. merge_constraint st n (s, t) cs = Inr cs' \<and> lookups_ok st cs'"
proof -
  have st: "s \<in> set (nodes (GC cs))" "t \<in> set (nodes (GC cs))" using wf_digraphD[OF wf c] by auto
  obtain ds dt bs bt ls lt where v: "deg cs s = Some ds" "deg cs t = Some dt"
      "cnode_barycenter st cs s = Some bs" "cnode_barycenter st cs t = Some bt"
      "L cs s = Some ls" "L cs t = Some lt"
    using ok st unfolding lookups_ok_def by (metis not_None_eq)
  obtain cs' where m: "merge_constraint st n (s, t) cs = Inr cs'"
    using v by (simp add: merge_constraint_def Let_def)
  have g: "GC cs' = rewire (Merged n) (s, t) (GC cs)" by (rule merge_constraint_GC[OF m])
  have sub: "set (nodes (GC cs')) \<subseteq> insert (Merged n) (set (nodes (GC cs)))"
    using rewire_props(3)[OF wf c fresh] g by simp
  have d: "deg cs' = (deg cs)(Merged n \<mapsto> ds + dt)"
    and l: "L cs' = (L cs)(Merged n \<mapsto> ls @ lt)"
    and mb: "\<exists>b. merged_barycenter cs' = (merged_barycenter cs)(n \<mapsto> b)"
    using m v by (auto simp: merge_constraint_def Let_def)
  have "lookups_ok st cs'"
    unfolding lookups_ok_def
  proof
    fix w assume w: "w \<in> set (nodes (GC cs'))"
    show "deg cs' w \<noteq> None \<and> cnode_barycenter st cs' w \<noteq> None \<and> L cs' w \<noteq> None"
    proof (cases "w = Merged n")
      case True
      then show ?thesis using d l mb by auto
    next
      case False
      then have old: "w \<in> set (nodes (GC cs))" using w sub by auto
      then have o: "deg cs w \<noteq> None" "cnode_barycenter st cs w \<noteq> None" "L cs w \<noteq> None"
        using ok by (auto simp: lookups_ok_def)
      have "cnode_barycenter st cs' w = cnode_barycenter st cs w"
        using False mb by (cases w) auto
      then show ?thesis using o d l False by simp
    qed
  qed
  then show ?thesis using m by blast
qed

lemma constraint_loop_normal:
  "wf_digraph (GC cs) \<Longrightarrow> \<forall>k\<ge>n. Merged k \<notin> set (nodes (GC cs)) \<Longrightarrow> lookups_ok st cs \<Longrightarrow>
   \<exists>m cs'. constraint_loop st n cs = Some (m, Inr cs')"
proof (induction "length (nodes (GC cs))" arbitrary: n cs rule: less_induct)
  case less
  have "\<forall>v \<in> set (nodes (GC cs)). cnode_barycenter st cs v \<noteq> None"
    using less.prems(3) by (simp add: lookups_ok_def)
  then obtain found where f: "find_violated_constraint (cnode_barycenter st cs) (GC cs) = Inr found"
    using find_violated_constraint_total[OF less.prems(1)] by blast
  show ?case
  proof (cases found)
    case None
    then show ?thesis using f by (subst constraint_loop.simps) simp
  next
    case (Some c)
    obtain s t where c: "c = (s, t)" by (cases c)
    have edge: "(s, t) \<in> set (edges (GC cs))"
      using find_violated_constraint_edge f Some c by fastforce
    have fresh: "Merged n \<notin> set (nodes (GC cs))" using less.prems(2) by simp
    note props = rewire_props[OF less.prems(1) edge fresh]
    obtain cs' where merged: "merge_constraint st n (s, t) cs = Inr cs'" and ok': "lookups_ok st cs'"
      using merge_constraint_ok[OF less.prems(3) less.prems(1) edge fresh] by blast
    have g: "GC cs' = rewire (Merged n) (s, t) (GC cs)" by (rule merge_constraint_GC[OF merged])
    have lt: "length (nodes (GC cs')) < length (nodes (GC cs))" using props(2) g by simp
    have wf': "wf_digraph (GC cs')" using props(1) g by simp
    have fresh': "\<forall>k\<ge>Suc n. Merged k \<notin> set (nodes (GC cs'))"
      using props(3) g less.prems(2) by auto
    from less.hyps[OF lt wf' fresh' ok'] obtain m r where
      "constraint_loop st (Suc n) cs' = Some (m, Inr r)" by blast
    then show ?thesis using f Some c merged by (subst constraint_loop.simps) simp
  qed
qed

lemma degrees_total:
  "\<forall>x \<in> set vs. \<exists>v. x = Elem v \<and> v \<in> set (graph_nodes H) \<Longrightarrow>
   \<exists>d. degrees H vs = Inr d \<and> (\<forall>x \<in> set vs. d x \<noteq> None)"
proof (induction vs)
  case Nil then show ?case by simp
next
  case (Cons x vs)
  obtain v where x: "x = Elem v" "v \<in> set (graph_nodes H)" using Cons.prems by auto
  obtain d where d: "degrees H vs = Inr d" "\<forall>x \<in> set vs. d x \<noteq> None" using Cons by auto
  show ?case using x d by (auto simp: graph_degree_def)
qed

lemma initial_lookups_ok:
  assumes "list_all (\<lambda>v. v \<in> set (free_col H) \<and> v \<in> set (graph_nodes H) \<and> barycenter st v \<noteq> None)
             (constrained_clusters H)"
  shows "\<exists>d. degrees H (nodes (add_edges_from (pairwise_list (map Elem (constrained_clusters H)))
                 empty_digraph)) = Inr d
          \<and> lookups_ok st (initial_constraint_state H d)"
proof -
  let ?g = "add_edges_from (pairwise_list (map Elem (constrained_clusters H))) empty_digraph"
  have nodes: "set (nodes ?g) \<subseteq> Elem ` set (constrained_clusters H)"
  proof -
    have "set (pairwise_list xs) \<subseteq> set xs \<times> set xs" for xs :: "'a cnode list"
      by (induction xs rule: pairwise_list.induct) auto
    then show ?thesis
      by (fastforce simp: set_nodes_add_edges_from empty_digraph_def)
  qed
  have el: "\<forall>x \<in> set (nodes ?g). \<exists>v. x = Elem v \<and> v \<in> set (graph_nodes H)"
    using nodes assms by (auto simp: list_all_iff)
  obtain d where d: "degrees H (nodes ?g) = Inr d" "\<forall>x \<in> set (nodes ?g). d x \<noteq> None"
    using degrees_total[OF el] by blast
  have "lookups_ok st (initial_constraint_state H d)"
    unfolding lookups_ok_def
  proof
    fix x assume "x \<in> set (nodes (GC (initial_constraint_state H d)))"
    then have x: "x \<in> set (nodes ?g)" by (simp add: initial_constraint_state_def Let_def)
    then obtain v where v: "x = Elem v" "v \<in> set (constrained_clusters H)" using nodes by auto
    then have p: "v \<in> set (free_col H)" "barycenter st v \<noteq> None" using assms by (auto simp: list_all_iff)
    have "map_of (map (\<lambda>v. (Elem v, [v])) (free_col H)) (Elem v) \<noteq> None"
      using p(1) by (auto simp: map_of_eq_None_iff image_iff)
    then show "deg (initial_constraint_state H d) x \<noteq> None
        \<and> cnode_barycenter st (initial_constraint_state H d) x \<noteq> None
        \<and> L (initial_constraint_state H d) x \<noteq> None"
      using d(2) x v p by (simp add: initial_constraint_state_def Let_def)
  qed
  then show ?thesis using d(1) by blast
qed

text \<open>
  C4. For a list of constrained clusters without repetition the loop of
  \<open>handle_constraints\<close> ends, by an exception or normally, after at most (number of nodes
  of the constraint graph - 1) passes, and on a normal end the number of nodes has gone
  down by one with every pass; so \<open>handle_constraints\<close> returns. When the constrained
  clusters are elements of the free column and nodes of \<open>H.graph\<close> with a barycenter, as
  they are when \<open>handle_constraints\<close> is called, the loop ends normally: every violated
  constraint found is merged, each merge lowers the number of nodes by one, and there are
  at most (number of nodes - 1) merges. (\<open>constraint_loop_bound\<close> is the same for every
  constraint graph without self-loops.)
\<close>

theorem handle_constraints_terminates:
  assumes "distinct (constrained_clusters H)"
  shows "handle_constraints H st \<noteq> None \<and>
     (\<exists>m r. constraint_loop st 0 (initial_constraint_state H d) = Some (m, r)
        \<and> m \<le> length (nodes (GC (initial_constraint_state H d))) - 1
        \<and> (\<forall>cs'. r = Inr cs' \<longrightarrow>
              length (nodes (GC cs')) + m = length (nodes (GC (initial_constraint_state H d)))))
     \<and> (list_all (\<lambda>v. v \<in> set (free_col H) \<and> v \<in> set (graph_nodes H) \<and> barycenter st v \<noteq> None)
           (constrained_clusters H) \<longrightarrow>
         (\<exists>m n. constraint_passes H st = Some (Inr (m, n))
            \<and> m \<le> length (nodes (GC (initial_constraint_state H d))) - 1
            \<and> n + m = length (nodes (GC (initial_constraint_state H d)))))"
proof -
  have loop: "\<exists>m r. constraint_loop st 0 (initial_constraint_state H d') = Some (m, r)
        \<and> m \<le> length (nodes (GC (initial_constraint_state H d'))) - 1
        \<and> (\<forall>cs'. r = Inr cs' \<longrightarrow>
              length (nodes (GC cs')) + m = length (nodes (GC (initial_constraint_state H d'))))" for d'
  proof -
    have "wf_digraph (GC (initial_constraint_state H d'))" by (rule initial_GC_wf(1)[OF assms])
    moreover have "\<forall>k\<ge>0. Merged k \<notin> set (nodes (GC (initial_constraint_state H d')))"
      by (rule initial_GC_wf(2)[OF assms])
    ultimately show ?thesis using constraint_loop_bound[of "initial_constraint_state H d'" 0 st]
      by simp
  qed
  have same: "GC (initial_constraint_state H d') = GC (initial_constraint_state H d)" for d'
    by (simp add: initial_constraint_state_def Let_def)
  have "handle_constraints H st \<noteq> None"
  proof (cases "degrees H (nodes (add_edges_from (pairwise_list (map Elem (constrained_clusters H))) empty_digraph))")
    case (Inl e)
    then show ?thesis by (simp add: handle_constraints_def Let_def)
  next
    case (Inr d')
    obtain m r where "constraint_loop st 0 (initial_constraint_state H d') = Some (m, r)"
      using loop[of d'] by blast
    then show ?thesis using Inr
      by (simp add: handle_constraints_def Let_def split: sum.splits)
  qed
  moreover have "\<exists>m n. constraint_passes H st = Some (Inr (m, n))
            \<and> m \<le> length (nodes (GC (initial_constraint_state H d))) - 1
            \<and> n + m = length (nodes (GC (initial_constraint_state H d)))"
    if ok: "list_all (\<lambda>v. v \<in> set (free_col H) \<and> v \<in> set (graph_nodes H) \<and> barycenter st v \<noteq> None)
           (constrained_clusters H)"
  proof -
    obtain d0 where d0: "degrees H (nodes (add_edges_from (pairwise_list (map Elem (constrained_clusters H)))
                 empty_digraph)) = Inr d0" "lookups_ok st (initial_constraint_state H d0)"
      using initial_lookups_ok[OF ok] by blast
    have wf: "wf_digraph (GC (initial_constraint_state H d0))" by (rule initial_GC_wf(1)[OF assms])
    have fr: "\<forall>k\<ge>0. Merged k \<notin> set (nodes (GC (initial_constraint_state H d0)))"
      by (rule initial_GC_wf(2)[OF assms])
    obtain m cs' where run: "constraint_loop st 0 (initial_constraint_state H d0) = Some (m, Inr cs')"
      using constraint_loop_normal[OF wf fr d0(2)] by blast
    obtain m' r where b: "constraint_loop st 0 (initial_constraint_state H d0) = Some (m', r)"
        "m' \<le> length (nodes (GC (initial_constraint_state H d0))) - 1"
        "\<forall>cs'. r = Inr cs' \<longrightarrow>
              length (nodes (GC cs')) + m' = length (nodes (GC (initial_constraint_state H d0)))"
      using loop[of d0] by blast
    have eq: "m' = m" "r = Inr cs'" using run b(1) by auto
    have "constraint_passes H st = Some (Inr (m, length (nodes (GC cs'))))"
      using d0(1) run by (simp add: constraint_passes_def Let_def)
    then show ?thesis using b(2,3) eq same[of d0] by auto
  qed
  ultimately show ?thesis using loop[of d] by simp
qed

theorem handle_constraints_terminates_witness:
  "distinct (constrained_clusters H_ABC)
   \<and> list_all (\<lambda>v. v \<in> set (free_col H_ABC) \<and> v \<in> set (graph_nodes H_ABC)
                    \<and> barycenter st_ABC v \<noteq> None) (constrained_clusters H_ABC)
   \<and> length (nodes (GC (initial_constraint_state H_ABC Map.empty))) = 3
   \<and> constraint_passes H_ABC st_ABC = Some (Inr (1, 2))
   \<and> handle_constraints H_ABC st_ABC \<noteq> None
   \<and> (\<exists>m n. constraint_passes H_ABC st_ABC = Some (Inr (m, n))
         \<and> m \<le> length (nodes (GC (initial_constraint_state H_ABC Map.empty))) - 1
         \<and> n + m = length (nodes (GC (initial_constraint_state H_ABC Map.empty))))"
proof -
  have h: "distinct (constrained_clusters H_ABC)" by (simp add: H_ABC_def)
  have ok: "list_all (\<lambda>v. v \<in> set (free_col H_ABC) \<and> v \<in> set (graph_nodes H_ABC)
                    \<and> barycenter st_ABC v \<noteq> None) (constrained_clusters H_ABC)"
    by (simp add: H_ABC_def st_ABC_def)
  have n: "length (nodes (GC (initial_constraint_state H_ABC Map.empty))) = 3" by code_simp
  have p: "constraint_passes H_ABC st_ABC = Some (Inr (1, 2))" by code_simp
  show ?thesis using h ok n p handle_constraints_terminates[OF h, of st_ABC Map.empty] by blast
qed

subsection \<open>Crossing count\<close>

text \<open>
  The accumulator tree. \<open>ins\<close> is the list of the leaves inserted so far, each with its
  weight; \<open>wsum P ins\<close> is the weight of those that satisfy \<open>P\<close>. With nodes counted from 1,
  node \<open>j\<close> is at depth \<open>d\<close> when \<open>2 ^ d \<le> j < 2 ^ (d + 1)\<close>, and at height \<open>h\<close> it covers the
  leaf positions from \<open>j * 2 ^ h\<close> up to \<open>(j + 1) * 2 ^ h\<close>.
\<close>

definition wsum :: "(nat \<Rightarrow> bool) \<Rightarrow> (nat \<times> int) list \<Rightarrow> int" where
  "wsum P ins = sum_list (map snd (filter (\<lambda>p. P (fst p)) ins))"

lemma wsum_Nil [simp]: "wsum P [] = 0" by (simp add: wsum_def)

lemma wsum_Cons [simp]: "wsum P (p # ins) = (if P (fst p) then snd p else 0) + wsum P ins"
  by (simp add: wsum_def)

lemma wsum_append [simp]: "wsum P (xs @ ys) = wsum P xs + wsum P ys"
  by (simp add: wsum_def)











































lemma set_insert_new [simp]: "set (insert_new x xs) = insert x (set xs)"
  by (auto simp: insert_new_def)

lemma distinct_insert_new [simp]: "distinct (insert_new x xs) = distinct xs"
  by (auto simp: insert_new_def)

lemma set_fold_insert_new [simp]: "set (fold insert_new xs ys) = set xs \<union> set ys"
  by (induction xs arbitrary: ys) auto

lemma distinct_fold_insert_new [simp]: "distinct (fold insert_new xs ys) = distinct ys"
  by (induction xs arbitrary: ys) auto

lemma set_dedup [simp]: "set (dedup xs) = set xs"
  by (simp add: dedup_def)

lemma distinct_dedup [simp]: "distinct (dedup xs)"
  by (simp add: dedup_def)

lemma dedup_Nil_iff [simp]: "dedup xs = [] \<longleftrightarrow> xs = []"
  by (metis set_dedup set_empty)

lemma set_group_subset: "set (concat (map (\<lambda>n. filter (\<lambda>x. f x = n) es) ns)) \<subseteq> set es"
  by auto















text \<open>
  The order of a sorted side. \<open>precedes a b xs\<close>: \<open>a\<close> is before \<open>b\<close> in \<open>xs\<close>. After
  the stable sort by position, \<open>a\<close> is before \<open>b\<close> exactly when its position is lower, or
  equal with \<open>a\<close> before \<open>b\<close> in the unsorted side.
\<close>

fun precedes :: "'a \<Rightarrow> 'a \<Rightarrow> 'a list \<Rightarrow> bool" where
  "precedes a b [] = False"
| "precedes a b (x # xs) = ((x = a \<and> b \<in> set xs) \<or> (x \<noteq> b \<and> precedes a b xs))"

lemma precedes_mem: "precedes a b xs \<Longrightarrow> a \<in> set xs \<and> b \<in> set xs"
  by (induction xs) auto



lemma precedes_asym: "distinct zs \<Longrightarrow> precedes a b zs \<Longrightarrow> \<not> precedes b a zs"
  by (induction zs) (auto dest: precedes_mem)

















subsection \<open>Socket ranks of the built data\<close>

lemma dict_set_keys: "map fst (dict_set k v kvs) = (if k \<in> fst ` set kvs then map fst kvs else map fst kvs @ [k])"
  by (auto simp: dict_set_def)

lemma fold_dict_set_inv:
  "distinct (map fst kvs) \<Longrightarrow> \<forall>(u, x) \<in> set kvs. x = f u \<Longrightarrow>
   distinct (map fst (fold (\<lambda>u. dict_set u (f u)) us kvs))
   \<and> (\<forall>(u, x) \<in> set (fold (\<lambda>u. dict_set u (f u)) us kvs). x = f u)"
proof (induction us arbitrary: kvs)
  case Nil then show ?case by simp
next
  case (Cons u us)
  have d: "distinct (map fst (dict_set u (f u) kvs))"
    using Cons.prems(1) by (auto simp: dict_set_keys)
  have v: "\<forall>(w, x) \<in> set (dict_set u (f u) kvs). x = f w"
    using Cons.prems(2) by (auto simp: dict_set_def split: if_splits)
  show ?case using Cons.IH[OF d v] by simp
qed

lemma built_fixed_sockets:
  assumes "cluster_crossings_data LT_h in_edges TC_pred prev_clusters backwards = Inr H"
  shows "distinct (map fst (fixed_sockets H))"
    and "\<forall>(u, ss) \<in> set (fixed_sockets H). \<exists>ws. distinct ws \<and> ss = sorted_by_idx (\<not> backwards) ws"
proof -
  obtain G_h where G_h: "contract TC_pred LT_h in_edges (dedup LT_h, []) = Inr G_h"
    using assms by (auto simp: cluster_crossings_data_def split: sum.splits)
  define f where "f = (\<lambda>u. sorted_by_idx (\<not> backwards)
      (dedup (map from_socket (filter (\<lambda>x. source x = u) (snd G_h)))))"
  define us where "us = concat (map (\<lambda>v. map source (filter (\<lambda>x. target x = v) (snd G_h))) LT_h)"
  have fx: "fixed_sockets H = fold (\<lambda>u. dict_set u (f u)) us []"
    using assms G_h by (auto simp: cluster_crossings_data_def Let_def f_def us_def)
  have inv: "distinct (map fst (fold (\<lambda>u. dict_set u (f u)) us []))
      \<and> (\<forall>(u, x) \<in> set (fold (\<lambda>u. dict_set u (f u)) us []). x = f u)"
    by (rule fold_dict_set_inv) simp_all
  show "distinct (map fst (fixed_sockets H))" using inv fx by simp
  show "\<forall>(u, ss) \<in> set (fixed_sockets H). \<exists>ws. distinct ws \<and> ss = sorted_by_idx (\<not> backwards) ws"
  proof (clarify)
    fix u ss assume "(u, ss) \<in> set (fixed_sockets H)"
    then have "ss = f u" using inv fx by auto
    then show "\<exists>ws. distinct ws \<and> ss = sorted_by_idx (\<not> backwards) ws"
      unfolding f_def by (intro exI[of _ "dedup (map from_socket (filter (\<lambda>x. source x = u) (snd G_h)))"]) simp
  qed
qed

lemma sorted_by_idx_distinct: "distinct ws \<Longrightarrow> distinct (sorted_by_idx r ws)"
  by (simp add: sorted_by_idx_def)

lemma sorted_by_idx_order:
  assumes "k < length ws" "k' < length ws"
    and "idx (sorted_by_idx r ws ! k) < idx (sorted_by_idx r ws ! k')"
  shows "if r then k' < k else k < k'"
proof (cases r)
  case False
  have s: "sorted (map idx (sort_key idx ws))" by simp
  have "\<not> k' \<le> k"
  proof
    assume "k' \<le> k"
    then have "map idx (sort_key idx ws) ! k' \<le> map idx (sort_key idx ws) ! k"
      using s assms(1) by (intro sorted_nth_mono) auto
    then show False using assms False by (simp add: sorted_by_idx_def)
  qed
  then show ?thesis using False by simp
next
  case True
  let ?l = "sort_key idx (rev ws)"
  have s: "sorted (map idx ?l)" by simp
  have len: "length ?l = length ws" by simp
  have nth: "sorted_by_idx r ws ! j = ?l ! (length ws - Suc j)" if "j < length ws" for j
    using that True by (simp add: sorted_by_idx_def rev_nth)
  have "\<not> k \<le> k'"
  proof
    assume "k \<le> k'"
    then have "length ws - Suc k' \<le> length ws - Suc k" by simp
    then have "map idx ?l ! (length ws - Suc k') \<le> map idx ?l ! (length ws - Suc k)"
      using s assms(1) by (intro sorted_nth_mono) auto
    then show False using assms nth[OF assms(1)] nth[OF assms(2)] by simp
  qed
  then show ?thesis using True by simp
qed

text \<open>
  C7, the claim as stated fails twice. Node 10 is at index 0 (position 1) and its sockets
  have the indices 0 and 1. In the forward pass they get the ranks 1/3 and 2/3, which are
  not within (1, 2) but below the position. In the backward pass they get 4/3 and 5/3. In
  both passes the socket of index 0 has the lower rank: the socket list of the forward data
  is sorted by descending index and ranked downwards, that of the backward data by
  ascending index and ranked upwards, so the direction by socket index does not differ.
\<close>

theorem calc_socket_ranks_forward_counterexample:
  "cluster_crossings_data [1, 2] (two_socket_in_edges False) two_socket_TC_pred [] False
     = Inr H_forward
   \<and> cluster_crossings_data [1, 2] (two_socket_in_edges True) two_socket_TC_pred [] True
     = Inr H_backward
   \<and> list_index (col st_two_sockets 10) 10 = Inr 0
   \<and> socket_rank_after H_forward True st_two_sockets 10 (Socket 10 0 True) = Inr (Some (1 / 3))
   \<and> socket_rank_after H_forward True st_two_sockets 10 (Socket 10 1 True) = Inr (Some (2 / 3))
   \<and> socket_rank_after H_backward False st_two_sockets 10 (Socket 10 0 False) = Inr (Some (4 / 3))
   \<and> socket_rank_after H_backward False st_two_sockets 10 (Socket 10 1 False) = Inr (Some (5 / 3))"
  by code_simp

text \<open>
  C7, amended. For the data that \<open>crossing_reduction_data\<close> builds for the direction of the
  pass, \<open>calc_socket_ranks\<close> returns when every fixed node is in its column, and the
  \<open>k\<close>-th socket (from 0) of the socket list of a fixed node with \<open>n\<close> sockets at 1-based
  position \<open>p\<close> gets rank \<open>p - (k+1)/(n+1)\<close> in a forward pass, strictly between \<open>p - 1\<close>
  and \<open>p\<close>, and rank \<open>p + (k+1)/(n+1)\<close> in a backward pass, strictly between \<open>p\<close> and
  \<open>p + 1\<close>: evenly spaced with step \<open>1/(n+1)\<close>. In both passes a socket of lower index
  gets the lower rank: the passes differ in the interval, not in the direction by socket
  index.
\<close>

theorem calc_socket_ranks_spacing:
  assumes build: "cluster_crossings_data LT_h in_edges TC_pred prev_clusters (\<not> forwards) = Inr H"
    and cols: "\<forall>(u, ss) \<in> set (fixed_sockets H). u \<in> set (col st u)"
    and v: "(v, sockets) \<in> set (fixed_sockets H)"
    and k: "k < length sockets" and k': "k' < length sockets"
  shows "\<exists>st' i. calc_socket_ranks H forwards st = Inr st' \<and> list_index (col st v) v = Inr i \<and>
     (let position = rat_of_nat i + 1;
          step = 1 / (rat_of_nat (length sockets) + 1);
          r = (if forwards then position - rat_of_nat (Suc k) * step
               else position + rat_of_nat (Suc k) * step)
      in socket_ranks st' v (sockets ! k) = Some r \<and>
         (if forwards then position - 1 < r \<and> r < position
          else position < r \<and> r < position + 1) \<and>
         (idx (sockets ! k) < idx (sockets ! k') \<longrightarrow>
            (\<exists>r'. socket_ranks st' v (sockets ! k') = Some r' \<and> r < r')))"
proof -
  have keys: "distinct (map fst (fixed_sockets H))" by (rule built_fixed_sockets(1)[OF build])
  obtain ws where ws: "distinct ws" "sockets = sorted_by_idx forwards ws"
    using built_fixed_sockets(2)[OF build] v by fastforce
  have d: "distinct sockets" using ws by (simp add: sorted_by_idx_distinct)
  obtain st' where run: "calc_socket_ranks_loop forwards (fixed_sockets H) st = Inr st'"
    using calc_socket_ranks_loop_total[OF cols] by blast
  have "v \<in> set (col st v)" using cols v by auto
  then obtain i where i: "list_index (col st v) v = Inr i" using list_index_mem by fastforce
  let ?n = "rat_of_nat (length sockets)"
  let ?step = "1 / (?n + 1)"
  let ?f = "rat_of_nat (Suc k) * ?step"
  have ranks: "socket_ranks st' v = rank_sockets (if forwards then - ?step else ?step)
      (rat_of_nat i + 1) sockets (socket_ranks st v)"
    by (rule calc_socket_ranks_loop_at[OF run keys v i])
  have val: "socket_ranks st' v (sockets ! j)
      = Some (rat_of_nat i + 1 + rat_of_nat (Suc j) * (if forwards then - ?step else ?step))"
    if "j < length sockets" for j
    unfolding ranks using that by (rule rank_sockets_nth[OF d])
  have pos: "0 < ?f" by simp
  have "rat_of_nat (Suc k) < ?n + 1" using k by simp
  then have lt: "?f < 1" by (simp add: divide_simps)
  have step: "0 < ?step" by simp
  have dir: "rat_of_nat i + 1 + rat_of_nat (Suc k) * (if forwards then - ?step else ?step)
      < rat_of_nat i + 1 + rat_of_nat (Suc k') * (if forwards then - ?step else ?step)"
    if lt_idx: "idx (sockets ! k) < idx (sockets ! k')"
  proof -
    have len: "length ws = length sockets" using ws(2) by (simp add: sorted_by_idx_def)
    have o: "if forwards then k' < k else k < k'"
      using sorted_by_idx_order[of k ws k' forwards] k k' lt_idx ws(2) len by simp
    show ?thesis
    proof (cases forwards)
      case True
      then have "rat_of_nat (Suc k') < rat_of_nat (Suc k)" using o by simp
      then have "rat_of_nat (Suc k') * ?step < rat_of_nat (Suc k) * ?step"
        using step by (rule mult_strict_right_mono)
      then show ?thesis using True by simp
    next
      case False
      then have "rat_of_nat (Suc k) < rat_of_nat (Suc k')" using o by simp
      then have "rat_of_nat (Suc k) * ?step < rat_of_nat (Suc k') * ?step"
        using step by (rule mult_strict_right_mono)
      then show ?thesis using False by simp
    qed
  qed
  show ?thesis using run i val[OF k] val[OF k'] pos lt dir
    by (auto simp: calc_socket_ranks_def Let_def)
qed

theorem calc_socket_ranks_spacing_witness:
  "cluster_crossings_data [1, 2] (two_socket_in_edges False) two_socket_TC_pred [] (\<not> True)
     = Inr H_forward
   \<and> (10, [Socket 10 1 True, Socket 10 0 True]) \<in> set (fixed_sockets H_forward)
   \<and> idx ([Socket 10 1 True, Socket (10 :: nat) 0 True] ! 1)
       < idx ([Socket 10 1 True, Socket (10 :: nat) 0 True] ! 0)
   \<and> (\<exists>st'. calc_socket_ranks H_forward True st_two_sockets = Inr st'
         \<and> socket_ranks st' 10 (Socket 10 0 True) = Some (1 / 3)
         \<and> (\<exists>r'. socket_ranks st' 10 (Socket 10 1 True) = Some r' \<and> 1 / 3 < r'))"
proof -
  have b: "cluster_crossings_data [1, 2] (two_socket_in_edges False) two_socket_TC_pred [] (\<not> True)
     = Inr H_forward" by code_simp
  have c: "\<forall>(u, ss) \<in> set (fixed_sockets H_forward). u \<in> set (col st_two_sockets u)"
    by (simp add: H_forward_def st_two_sockets_def)
  have m: "(10, [Socket 10 1 True, Socket 10 0 True]) \<in> set (fixed_sockets H_forward)"
    by (simp add: H_forward_def)
  have i: "list_index (col st_two_sockets 10) 10 = Inr 0"
    by (simp add: st_two_sockets_def list_index_def)
  from calc_socket_ranks_spacing[OF b c m, of 1 0] i
  have "\<exists>st'. calc_socket_ranks H_forward True st_two_sockets = Inr st'
         \<and> socket_ranks st' 10 (Socket 10 0 True) = Some (1 / 3)
         \<and> (\<exists>r'. socket_ranks st' 10 (Socket 10 1 True) = Some r' \<and> 1 / 3 < r')"
    by (simp add: Let_def)
  then show ?thesis using b m by simp
qed

subsection \<open>Linear segments\<close>

text \<open>
  \<open>parented g before xs\<close>: every element of \<open>xs\<close> has an edge from an element of \<open>before\<close>
  or from an earlier element of \<open>xs\<close>. The depth-first preorder from \<open>u\<close> is \<open>u\<close> followed by
  a list that is parented by \<open>[u]\<close>.
\<close>

fun parented :: "'a digraph \<Rightarrow> 'a list \<Rightarrow> 'a list \<Rightarrow> bool" where
  "parented g before [] = True"
| "parented g before (x # xs) =
     ((\<exists>y \<in> set before. (y, x) \<in> set (edges g)) \<and> parented g (before @ [x]) xs)"

lemma parented_append:
  "parented g b (xs @ ys) = (parented g b xs \<and> parented g (b @ xs) ys)"
  by (induction xs arbitrary: b) auto

lemma parented_cong: "set b = set b' \<Longrightarrow> parented g b xs = parented g b' xs"
  by (induction xs arbitrary: b b') (auto, (metis set_append)+)

lemma dfs_inv:
  assumes "distinct visited"
    and "\<forall>x \<in> set stack. x \<in> set visited \<or> (\<exists>y \<in> set visited. (y, x) \<in> set (edges g))"
  shows "\<exists>ext. dfs g stack visited = rev visited @ ext \<and> distinct (rev visited @ ext)
           \<and> parented g (rev visited) ext"
  using assms
proof (induction g stack visited rule: dfs.induct)
  case (1 g visited)
  then show ?case by simp
next
  case (2 g x stack visited)
  show ?case
  proof (cases "x \<in> set visited")
    case True
    then show ?thesis using 2 by simp
  next
    case False
    have d: "distinct (x # visited)" using False "2.prems"(1) by simp
    have st: "\<forall>z \<in> set (dedup (succs g x) @ stack).
        z \<in> set (x # visited) \<or> (\<exists>y \<in> set (x # visited). (y, z) \<in> set (edges g))"
      using "2.prems"(2) by (auto simp: succs_def)
    from "2.IH"(2)[OF False d st] obtain ext where
      ext: "dfs g (dedup (succs g x) @ stack) (x # visited) = rev (x # visited) @ ext"
        "distinct (rev (x # visited) @ ext)" "parented g (rev (x # visited)) ext" by blast
    have px: "\<exists>y \<in> set (rev visited). (y, x) \<in> set (edges g)"
      using "2.prems"(2) False by auto
    have "dfs g (x # stack) visited = rev visited @ (x # ext)" using False ext(1) by simp
    moreover have "distinct (rev visited @ (x # ext))" using ext(2) by simp
    moreover have "parented g (rev visited) (x # ext)" using px ext(3) by simp
    ultimately show ?thesis by blast
  qed
qed

lemma dfs_preorder_nodes_chain:
  "\<exists>ext. dfs_preorder_nodes g u = u # ext \<and> distinct (u # ext) \<and> parented g [u] ext"
proof -
  have "\<exists>ext. dfs g (dedup (succs g u) @ []) [u] = rev [u] @ ext \<and> distinct (rev [u] @ ext)
           \<and> parented g (rev [u]) ext"
    by (rule dfs_inv) (auto simp: succs_def)
  then show ?thesis by (simp add: dfs_preorder_nodes_def)
qed

lemma extend_chain_prefix:
  "extend_chain CG cx u succ = Inr vs \<Longrightarrow>
   (\<exists>rest. succ = vs @ rest)
   \<and> (\<forall>v \<in> set vs. in_degree (cg_G CG) v \<le> 1 \<and> out_degree (cg_G CG) v \<le> 1)"
proof (induction succ arbitrary: vs)
  case Nil then show ?case by simp
next
  case (Cons v succ)
  show ?case
  proof (cases "stops CG cx u v")
    case (Inl e) then show ?thesis using Cons.prems by simp
  next
    case (Inr b)
    show ?thesis
    proof (cases b)
      case True then show ?thesis using Cons.prems Inr by simp
    next
      case False
      then obtain vs' where vs': "extend_chain CG cx u succ = Inr vs'" "vs = v # vs'"
        using Cons.prems Inr by (auto split: sum.splits)
      have "in_degree (cg_G CG) v \<le> 1 \<and> out_degree (cg_G CG) v \<le> 1"
        using Inr False by (auto simp: stops_def split: if_splits)
      then show ?thesis using Cons.IH[OF vs'(1)] vs'(2) by auto
    qed
  qed
qed

lemma stops_total:
  "cluster CG u \<in> set (nodes (cg_T CG)) \<Longrightarrow> cluster CG v \<in> set (nodes (cg_T CG)) \<Longrightarrow>
   \<exists>b. stops CG cx u v = Inr b"
  by (auto simp: stops_def has_path_def Let_def split: bool.splits)

lemma extend_chain_total:
  "cluster CG u \<in> set (nodes (cg_T CG)) \<Longrightarrow>
   \<forall>v \<in> set succ. cluster CG v \<in> set (nodes (cg_T CG)) \<Longrightarrow>
   \<exists>vs. extend_chain CG cx u succ = Inr vs"
proof (induction succ)
  case Nil then show ?case by simp
next
  case (Cons v succ)
  obtain b where "stops CG cx u v = Inr b" using stops_total Cons.prems by fastforce
  moreover obtain vs where "extend_chain CG cx u succ = Inr vs" using Cons by auto
  ultimately show ?case by (cases b) auto
qed


text \<open>
  The invariant of the outer loop, for the set \<open>D\<close> of the nodes met so far with more than
  one out-edge: the segments are disjoint, and every node in a segment that is not in \<open>D\<close> is
  in \<open>seen\<close>, has at most one out-edge, and its predecessors are in segments too.
\<close>

definition seg_inv :: "'v ClusterGraph \<Rightarrow> 'v set \<Rightarrow> 'v list list \<times> 'v list \<Rightarrow> bool" where
  "seg_inv CG D ls \<longleftrightarrow>
     distinct (concat (fst ls))
     \<and> D \<subseteq> set (concat (fst ls))
     \<and> set (snd ls) \<subseteq> set (concat (fst ls))
     \<and> set (concat (fst ls)) \<subseteq> set (nodes (cg_G CG))
     \<and> (\<forall>w \<in> set (concat (fst ls)). w \<in> D
           \<or> (w \<in> set (snd ls) \<and> out_degree (cg_G CG) w \<le> 1
               \<and> (\<forall>y. (y, w) \<in> set (edges (cg_G CG)) \<longrightarrow> y \<in> set (concat (fst ls)))))"

lemma in_degree_unique:
  assumes "in_degree g w \<le> 1" and "(y, w) \<in> set (edges g)" and "(y', w) \<in> set (edges g)"
  shows "y = y'"
proof -
  let ?l = "filter (\<lambda>e. snd e = w) (edges g)"
  have len: "length ?l \<le> 1" using assms(1) by (simp add: in_degree_def preds_def)
  have "(y, w) \<in> set ?l" "(y', w) \<in> set ?l" using assms(2,3) by auto
  moreover obtain a where "set ?l \<subseteq> {a}" using len by (cases ?l) auto
  ultimately have "(y, w) = a" "(y', w) = a" by blast+
  then show ?thesis by (metis fst_conv)
qed

lemma parented_rank:
  assumes "\<forall>e \<in> set (edges g). r (fst e) < r (snd e)" and "parented g b xs"
    and "\<forall>y \<in> set b. r u \<le> r y"
  shows "\<forall>x \<in> set xs. r u < (r x :: int)"
  using assms(2,3)
proof (induction xs arbitrary: b)
  case Nil then show ?case by simp
next
  case (Cons x xs)
  then obtain y where y: "y \<in> set b" "(y, x) \<in> set (edges g)" by auto
  then have "r y < r x" using assms(1) by fastforce
  then have rx: "r u < r x" using Cons.prems(2) y(1) by fastforce
  have "\<forall>z \<in> set xs. r u < r z"
    using Cons.prems rx by (intro Cons.IH[of "b @ [x]"]) auto
  then show ?case using rx by simp
qed

lemma chain_fresh:
  assumes par: "parented g b xs"
    and deg: "\<forall>x \<in> set xs. in_degree g x \<le> 1"
    and b: "set b \<inter> A = {}"
    and closed: "\<forall>w \<in> A. w \<in> D \<or> (\<forall>y. (y, w) \<in> set (edges g) \<longrightarrow> y \<in> A)"
    and notD: "set xs \<inter> D = {}"
  shows "set xs \<inter> A = {}"
  using par deg b notD
proof (induction xs arbitrary: b)
  case Nil then show ?case by simp
next
  case (Cons x xs)
  then obtain y where y: "y \<in> set b" "(y, x) \<in> set (edges g)" by auto
  have "x \<notin> A"
  proof
    assume "x \<in> A"
    then have "x \<in> D \<or> (\<forall>y. (y, x) \<in> set (edges g) \<longrightarrow> y \<in> A)" using closed by blast
    then have "y \<in> A" using Cons.prems(4) y(2) by auto
    then show False using y(1) Cons.prems(3) by auto
  qed
  moreover have "set xs \<inter> A = {}"
    using Cons.prems \<open>x \<notin> A\<close> by (intro Cons.IH[of "b @ [x]"]) auto
  ultimately show ?case by simp
qed

lemma parented_pred_closed:
  assumes "parented g b xs" and "\<forall>x \<in> set xs. in_degree g x \<le> 1"
  shows "\<forall>x \<in> set xs. \<forall>y. (y, x) \<in> set (edges g) \<longrightarrow> y \<in> set b \<union> set xs"
  using assms
proof (induction xs arbitrary: b)
  case Nil then show ?case by simp
next
  case (Cons x xs)
  then obtain y where y: "y \<in> set b" "(y, x) \<in> set (edges g)" by auto
  have hd: "\<forall>y'. (y', x) \<in> set (edges g) \<longrightarrow> y' \<in> set b"
  proof (intro allI impI)
    fix y' assume e: "(y', x) \<in> set (edges g)"
    have "in_degree g x \<le> 1" using Cons.prems(2) by simp
    from in_degree_unique[OF this e y(2)] show "y' \<in> set b" using y(1) by simp
  qed
  have "\<forall>z \<in> set xs. \<forall>y. (y, z) \<in> set (edges g) \<longrightarrow> y \<in> set (b @ [x]) \<union> set xs"
    using Cons.prems by (intro Cons.IH) auto
  then show ?case using hd by auto
qed

lemma segment_step_inv:
  assumes lay: "layered CG" and inv: "seg_inv CG D ls"
    and u: "u \<in> set (nodes (cg_G CG))" "u \<notin> D" and low: "\<forall>d \<in> D. rank CG d \<le> rank CG u"
  shows "\<exists>ls'. segment_step CG cx u ls = Inr ls' \<and> seg_inv CG (insert u D) ls'"
proof -
  let ?g = "cg_G CG"
  let ?A = "set (concat (fst ls))"
  have edges_ok: "\<forall>e \<in> set (edges ?g). fst e \<in> set (nodes ?g) \<and> snd e \<in> set (nodes ?g)
        \<and> rank CG (fst e) < rank CG (snd e)"
    and clusters_ok: "\<forall>v \<in> set (nodes ?g). cluster CG v \<in> set (nodes (cg_T CG))"
    using lay by (auto simp: layered_def list_all_iff)
  have i1: "distinct (concat (fst ls))" and i2: "D \<subseteq> ?A" and i3: "set (snd ls) \<subseteq> ?A"
    and i4: "?A \<subseteq> set (nodes ?g)"
    and i5: "\<forall>w \<in> ?A. w \<in> D \<or> (w \<in> set (snd ls) \<and> out_degree ?g w \<le> 1
               \<and> (\<forall>y. (y, w) \<in> set (edges ?g) \<longrightarrow> y \<in> ?A))"
    using inv by (auto simp: seg_inv_def simp del: set_concat)
  show ?thesis
  proof (cases "u \<in> set (snd ls)")
    case True
    then have "u \<in> ?A" using i3 by (auto simp del: set_concat)
    then have "seg_inv CG (insert u D) ls" using inv by (auto simp: seg_inv_def simp del: set_concat)
    then show ?thesis using True by (simp add: segment_step_def)
  next
    case False
    have uA: "u \<notin> ?A" using i5 False u(2) by auto
    show ?thesis
    proof (cases "out_degree ?g u > 1")
      case True
      have "segment_step CG cx u ls = Inr (fst ls @ [[u]], snd ls)"
        using False True u(1) by (simp add: segment_step_def degree_lookup_def)
      moreover have "seg_inv CG (insert u D) (fst ls @ [[u]], snd ls)"
        unfolding seg_inv_def
      proof (intro conjI ballI)
        show "distinct (concat (fst (fst ls @ [[u]], snd ls)))"
          using i1 uA by (simp del: set_concat)
        show "insert u D \<subseteq> set (concat (fst (fst ls @ [[u]], snd ls)))"
          using i2 by (auto simp del: set_concat)
        show "set (snd (fst ls @ [[u]], snd ls)) \<subseteq> set (concat (fst (fst ls @ [[u]], snd ls)))"
          using i3 by (auto simp del: set_concat)
        show "set (concat (fst (fst ls @ [[u]], snd ls))) \<subseteq> set (nodes ?g)"
          using i4 u(1) by (auto simp del: set_concat)
      next
        fix w assume "w \<in> set (concat (fst (fst ls @ [[u]], snd ls)))"
        then consider "w \<in> ?A" | "w = u" by (auto simp del: set_concat)
        then show "w \<in> insert u D \<or> (w \<in> set (snd (fst ls @ [[u]], snd ls))
               \<and> out_degree ?g w \<le> 1
               \<and> (\<forall>y. (y, w) \<in> set (edges ?g) \<longrightarrow>
                      y \<in> set (concat (fst (fst ls @ [[u]], snd ls)))))"
        proof cases
          case 1
          then show ?thesis using i5 by (auto simp del: set_concat)
        next
          case 2
          then show ?thesis by simp
        qed
      qed
      ultimately show ?thesis by simp
    next
      case deg1: False
      obtain ext where ext: "dfs_preorder_nodes ?g u = u # ext" "distinct (u # ext)"
          "parented ?g [u] ext"
        using dfs_preorder_nodes_chain[of ?g u] by (elim exE conjE)
      have ext_nodes: "set ext \<subseteq> set (nodes ?g)"
      proof
        fix x assume "x \<in> set ext"
        then obtain pre post where "ext = pre @ x # post" by (meson split_list)
        then have "parented ?g ([u] @ pre) (x # post)" using ext(3) parented_append by metis
        then obtain y where "(y, x) \<in> set (edges ?g)" by auto
        then show "x \<in> set (nodes ?g)" using edges_ok by fastforce
      qed
      have "\<exists>vs. extend_chain CG cx u ext = Inr vs"
        using clusters_ok u(1) ext_nodes by (intro extend_chain_total) auto
      then obtain vs where vs: "extend_chain CG cx u ext = Inr vs" by blast
      from extend_chain_prefix[OF vs] obtain rest where rest: "ext = vs @ rest"
        and degs: "\<forall>v \<in> set vs. in_degree ?g v \<le> 1 \<and> out_degree ?g v \<le> 1" by blast
      have par: "parented ?g [u] vs" using ext(3) rest by (simp add: parented_append)
      have dvs: "distinct (u # vs)" using ext(2) rest by auto
      have ranks: "\<forall>x \<in> set vs. rank CG u < rank CG x"
        by (rule parented_rank[OF _ par]) (use edges_ok in auto)
      have notD: "set vs \<inter> D = {}" using ranks low by fastforce
      have fresh: "set vs \<inter> ?A = {}"
      proof (rule chain_fresh[OF par _ _ _ notD])
        show "\<forall>x \<in> set vs. in_degree ?g x \<le> 1" using degs by simp
        show "set [u] \<inter> ?A = {}" using uA by simp
        show "\<forall>w \<in> ?A. w \<in> D \<or> (\<forall>y. (y, w) \<in> set (edges ?g) \<longrightarrow> y \<in> ?A)"
          using i5 by blast
      qed
      have closed: "\<forall>x \<in> set vs. \<forall>y. (y, x) \<in> set (edges ?g) \<longrightarrow> y \<in> set [u] \<union> set vs"
        by (rule parented_pred_closed[OF par]) (use degs in auto)
      have step: "segment_step CG cx u ls = Inr (fst ls @ [u # vs], snd ls @ (u # vs))"
        using False deg1 u(1) ext(1) vs by (simp add: segment_step_def degree_lookup_def)
      have "seg_inv CG (insert u D) (fst ls @ [u # vs], snd ls @ (u # vs))"
        unfolding seg_inv_def
      proof (intro conjI ballI)
        show "distinct (concat (fst (fst ls @ [u # vs], snd ls @ (u # vs))))"
          using i1 dvs uA fresh by (auto simp del: set_concat)
        show "insert u D \<subseteq> set (concat (fst (fst ls @ [u # vs], snd ls @ (u # vs))))"
          using i2 by (auto simp del: set_concat)
        show "set (snd (fst ls @ [u # vs], snd ls @ (u # vs)))
            \<subseteq> set (concat (fst (fst ls @ [u # vs], snd ls @ (u # vs))))"
          using i3 by (auto simp del: set_concat)
        show "set (concat (fst (fst ls @ [u # vs], snd ls @ (u # vs)))) \<subseteq> set (nodes ?g)"
          using i4 u(1) ext_nodes rest by (auto simp del: set_concat)
      next
        fix w assume w: "w \<in> set (concat (fst (fst ls @ [u # vs], snd ls @ (u # vs))))"
        let ?A' = "set (concat (fst (fst ls @ [u # vs], snd ls @ (u # vs))))"
        let ?seen' = "set (snd (fst ls @ [u # vs], snd ls @ (u # vs)))"
        from w consider "w \<in> ?A" | "w = u" | "w \<in> set vs" by (auto simp del: set_concat)
        then show "w \<in> insert u D \<or> (w \<in> ?seen' \<and> out_degree ?g w \<le> 1
               \<and> (\<forall>y. (y, w) \<in> set (edges ?g) \<longrightarrow> y \<in> ?A'))"
        proof cases
          case 1
          then show ?thesis using i5 by (auto simp del: set_concat)
        next
          case 2
          then show ?thesis by simp
        next
          case 3
          then show ?thesis using degs closed by (auto simp del: set_concat)
        qed
      qed
      then show ?thesis using step by simp
    qed
  qed
qed

lemma segment_loop_inv:
  assumes lay: "layered CG"
  shows "seg_inv CG (set prior) ls \<Longrightarrow> distinct (prior @ us) \<Longrightarrow>
         sorted (map (rank CG) (prior @ us)) \<Longrightarrow> set us \<subseteq> set (nodes (cg_G CG)) \<Longrightarrow>
         \<exists>ls'. segment_loop CG cx us ls = Inr ls' \<and> seg_inv CG (set (prior @ us)) ls'"
proof (induction us arbitrary: prior ls)
  case Nil then show ?case by simp
next
  case (Cons u us)
  have low: "\<forall>d \<in> set prior. rank CG d \<le> rank CG u"
    using Cons.prems(3) by (auto simp: sorted_append)
  have "\<exists>ls'. segment_step CG cx u ls = Inr ls' \<and> seg_inv CG (insert u (set prior)) ls'"
    using Cons.prems by (intro segment_step_inv[OF lay _ _ _ low]) auto
  then obtain ls1 where ls1: "segment_step CG cx u ls = Inr ls1"
      "seg_inv CG (set (prior @ [u])) ls1" by auto
  have "\<exists>ls'. segment_loop CG cx us ls1 = Inr ls' \<and> seg_inv CG (set ((prior @ [u]) @ us)) ls'"
    using Cons.prems by (intro Cons.IH[OF ls1(2)]) auto
  then show ?case using ls1(1) by simp
qed

lemma complex_clusters_loop_total:
  "list_all (\<lambda>c. c \<in> set (nodes (cg_T CG))) cs \<Longrightarrow> \<exists>cx'. complex_clusters_loop CG cs cx = Inr cx'"
  by (induction cs arbitrary: cx) (auto simp: adjacency_def)

lemma complex_clusters_total:
  "list_all (\<lambda>c. c \<in> set (nodes (cg_T CG))) (cg_S CG) \<Longrightarrow> \<exists>cx. complex_clusters CG = Inr cx"
  unfolding complex_clusters_def by (rule complex_clusters_loop_total)

lemma get_linear_segments_partition:
  assumes "layered CG"
  shows "\<exists>segs. get_linear_segments CG = Inr segs \<and> distinct (concat segs)
           \<and> set (concat segs) = set (nodes (cg_G CG))"
proof -
  let ?order = "concat (columns CG)"
  have o: "distinct ?order" "set ?order = set (nodes (cg_G CG))" "sorted (map (rank CG) ?order)"
    using assms by (auto simp: layered_def)
  have "list_all (\<lambda>c. c \<in> set (nodes (cg_T CG))) (cg_S CG)" using assms by (simp add: layered_def)
  then obtain cx where cx: "complex_clusters CG = Inr cx" using complex_clusters_total by blast
  have "seg_inv CG (set []) ([], [])" by (simp add: seg_inv_def)
  from segment_loop_inv[OF assms this, of ?order cx] o
  have "\<exists>ls'. segment_loop CG cx ?order ([], []) = Inr ls'
      \<and> seg_inv CG (set ([] @ ?order)) ls'" by simp
  then obtain ls where ls: "segment_loop CG cx ?order ([], []) = Inr ls"
      "seg_inv CG (set ?order) ls" by auto
  have "distinct (concat (fst ls))" "set (concat (fst ls)) = set (nodes (cg_G CG))"
    using ls(2) o(2) by (auto simp: seg_inv_def simp del: set_concat)
  then show ?thesis using ls(1) cx by (simp add: get_linear_segments_def)
qed

lemma fold_remove1_suffix: "distinct (as @ bs) \<Longrightarrow> fold remove1 bs (as @ bs) = as"
proof (induction bs arbitrary: as)
  case Nil then show ?case by simp
next
  case (Cons b bs)
  have "remove1 b (as @ b # bs) = as @ bs" using Cons.prems by (simp add: remove1_append)
  moreover have "fold remove1 bs (as @ bs) = as" using Cons.prems by (intro Cons.IH) auto
  ultimately show ?case by simp
qed

lemma split_distinct:
  assumes "distinct seg" and "v \<in> set seg"
  shows "\<exists>old new. split seg v = Inr (old, new) \<and> old @ new = seg \<and> new \<noteq> [] \<and> hd new = v"
proof -
  obtain i where i: "list_index seg v = Inr i" using assms(2) list_index_mem by fastforce
  then have "index_from 0 seg v = Some i" by (auto simp: list_index_def split: option.splits)
  from index_from_nth[OF this] have n: "i < length seg" "seg ! i = v" by auto
  have "fold remove1 (drop i seg) (take i seg @ drop i seg) = take i seg"
    using assms(1) by (intro fold_remove1_suffix) simp
  then have "split seg v = Inr (take i seg, drop i seg)" using i by (simp add: split_def)
  moreover have "hd (drop i seg) = v" using n by (simp add: hd_drop_conv_nth)
  moreover have "drop i seg \<noteq> []" using n by simp
  ultimately show ?thesis by auto
qed

lemma mset_concat_update:
  "i < length segs \<Longrightarrow>
   mset (concat (segs[i := a])) + mset (segs ! i) = mset (concat segs) + mset a"
proof (induction segs arbitrary: i)
  case Nil then show ?case by simp
next
  case (Cons s segs)
  show ?case
  proof (cases i)
    case 0 then show ?thesis by simp
  next
    case (Suc j)
    then show ?thesis using Cons.prems Cons.IH[of j] by (simp add: ac_simps)
  qed
qed


text \<open>
  C6, the claim as stated fails for an input that is not layered: in \<open>CG_reversed\<close>, where
  the edge (1, 2) leads to the earlier column, \<open>get_linear_segments\<close> returns the segments
  [2] and [1, 2], and node 2 is in both.
\<close>

theorem linear_segments_overlap_counterexample:
  "get_linear_segments CG_reversed = Inr [[2], [1, 2]]
   \<and> \<not> distinct (concat [[2], [1, 2 :: nat]])
   \<and> \<not> layered CG_reversed
   \<and> ClusterGraph_init 10 parent_tree (\<lambda>v. v = 100) (cg_G CG_reversed)
       = Inr (cg_T CG_reversed, cg_S CG_reversed)"
  by code_simp

text \<open>
  C6, amended. For every layered cluster graph (the columns hold every node of the graph
  exactly once in ascending rank, every edge leads from a node of the graph to a node of
  higher rank, the clusters in \<open>S\<close> and the clusters of the nodes are nodes of \<open>T\<close>)
  \<open>get_linear_segments\<close> returns, and its segments partition the nodes of the graph: no
  node is in two segments or twice in one, and every node is in a segment. \<open>Segment.split\<close>
  at a node \<open>v\<close> of a segment keeps the partition: the segment keeps the nodes before \<open>v\<close>,
  the new segment, appended to the list, starts at \<open>v\<close> and holds the rest, and together
  the segments hold the same nodes, each once.
\<close>

theorem linear_segments_partition:
  "(layered CG \<longrightarrow>
      (\<exists>segs. get_linear_segments CG = Inr segs \<and> distinct (concat segs)
         \<and> set (concat segs) = set (nodes (cg_G CG))))
   \<and> (distinct (concat segs) \<and> i < length segs \<and> v \<in> set (segs ! i) \<longrightarrow>
        (\<exists>old new. split (segs ! i) v = Inr (old, new) \<and> old @ new = segs ! i
           \<and> new \<noteq> [] \<and> hd new = v
           \<and> distinct (concat (segs[i := old] @ [new]))
           \<and> set (concat (segs[i := old] @ [new])) = set (concat segs)))"
proof (intro conjI impI)
  assume "layered CG"
  then show "\<exists>segs. get_linear_segments CG = Inr segs \<and> distinct (concat segs)
         \<and> set (concat segs) = set (nodes (cg_G CG))"
    by (rule get_linear_segments_partition)
next
  assume a: "distinct (concat segs) \<and> i < length segs \<and> v \<in> set (segs ! i)"
  then have "distinct (segs ! i)" by (auto simp: distinct_concat_iff)
  from split_distinct[OF this] a obtain old new where s: "split (segs ! i) v = Inr (old, new)"
      "old @ new = segs ! i" "new \<noteq> []" "hd new = v" by blast
  have "mset (concat (segs[i := old])) + mset (segs ! i) = mset (concat segs) + mset old"
    using a by (intro mset_concat_update) simp
  then have "mset (concat (segs[i := old])) + mset new = mset (concat segs)"
    using s(2) by (metis add.assoc add.commute add_left_cancel mset_append)
  then have m: "mset (concat (segs[i := old] @ [new])) = mset (concat segs)" by simp
  have "distinct (concat (segs[i := old] @ [new]))"
    using m a by (metis mset_eq_imp_distinct_iff)
  moreover have "set (concat (segs[i := old] @ [new])) = set (concat segs)"
    using m by (rule mset_eq_setD)
  ultimately show "\<exists>old new. split (segs ! i) v = Inr (old, new) \<and> old @ new = segs ! i
           \<and> new \<noteq> [] \<and> hd new = v
           \<and> distinct (concat (segs[i := old] @ [new]))
           \<and> set (concat (segs[i := old] @ [new])) = set (concat segs)"
    using s by blast
qed

theorem linear_segments_partition_witness:
  "layered CG_path \<and> get_linear_segments CG_path = Inr [[1, 2, 3], [4]]
   \<and> distinct (concat [[1, 2, 3], [4 :: nat]]) \<and> (0 :: nat) < length [[1, 2, 3], [4 :: nat]]
   \<and> (2 :: nat) \<in> set ([[1, 2, 3], [4]] ! 0)
   \<and> split ([[1, 2, 3], [4 :: nat]] ! 0) 2 = Inr ([1], [2, 3])
   \<and> (\<exists>segs. get_linear_segments CG_path = Inr segs \<and> distinct (concat segs)
         \<and> set (concat segs) = set (nodes (cg_G CG_path)))
   \<and> (\<exists>old new. split ([[1, 2, 3], [4 :: nat]] ! 0) 2 = Inr (old, new)
         \<and> old @ new = [[1, 2, 3], [4]] ! 0 \<and> new \<noteq> [] \<and> hd new = 2
         \<and> distinct (concat ([[1, 2, 3], [4]][0 := old] @ [new]))
         \<and> set (concat ([[1, 2, 3], [4]][0 := old] @ [new])) = set (concat [[1, 2, 3], [4]]))"
proof -
  have h1: "layered CG_path" by code_simp
  have h2: "get_linear_segments CG_path = Inr [[1, 2, 3], [4]]" by code_simp
  have h3: "split ([[1, 2, 3], [4 :: nat]] ! 0) 2 = Inr ([1], [2, 3])" by code_simp
  have h5: "distinct (concat [[1, 2, 3], [4 :: nat]]) \<and> (0 :: nat) < length [[1, 2, 3], [4 :: nat]]
      \<and> (2 :: nat) \<in> set ([[1, 2, 3], [4]] ! 0)" by simp
  note t = linear_segments_partition[of CG_path "[[1, 2, 3], [4]]" 0 2]
  have h4: "\<exists>segs. get_linear_segments CG_path = Inr segs \<and> distinct (concat segs)
         \<and> set (concat segs) = set (nodes (cg_G CG_path))"
    using t h1 by blast
  have h6: "\<exists>old new. split ([[1, 2, 3], [4 :: nat]] ! 0) 2 = Inr (old, new)
         \<and> old @ new = [[1, 2, 3], [4]] ! 0 \<and> new \<noteq> [] \<and> hd new = 2
         \<and> distinct (concat ([[1, 2, 3], [4]][0 := old] @ [new]))
         \<and> set (concat ([[1, 2, 3], [4]][0 := old] @ [new])) = set (concat [[1, 2, 3], [4]])"
    using t h5 by blast
  show ?thesis using h1 h2 h3 h4 h5 h6 by blast
qed









end
